theory Spec2Isabelle
  imports Main
begin

section \<open>JavaScript strings\<close>

text \<open>
  A JavaScript string is a sequence of UTF-16 code units.  It is modelled as a
  \<^typ>\<open>string\<close>; a \<^typ>\<open>char\<close> stands for one code unit in the range 0..255.
  Every string literal of the sources that matters below is plain ASCII.
\<close>

text \<open>
  The code units below 256 that ECMAScript classifies as WhiteSpace or
  LineTerminator: TAB, LF, VT, FF, CR, SPACE and NBSP.  They are what
  \<^verbatim>\<open>String.prototype.trim\<close> removes and what \<^verbatim>\<open>\s\<close> matches.
\<close>

definition is_js_space :: "char \<Rightarrow> bool" where
  "is_js_space c =
     (c = CHR 0x09 \<or> c = CHR 0x0A \<or> c = CHR 0x0B \<or> c = CHR 0x0C \<or> c = CHR 0x0D
      \<or> c = CHR '' '' \<or> c = CHR 0xA0)"

text \<open>\<^verbatim>\<open>s.trim()\<close>\<close>

definition trim :: "string \<Rightarrow> string" where
  "trim s = rev (dropWhile is_js_space (rev (dropWhile is_js_space s)))"

section \<open>Errors\<close>

text \<open>
  Every \<^verbatim>\<open>throw\<close> and every rejected promise of the modelled functions is a
  value of this type.  The sources throw plain \<^verbatim>\<open>Error\<close> objects that differ in
  their message only; the constructors name the throw sites.
\<close>

datatype error =
    ApiKeyMissing
      \<comment> \<open>\<^verbatim>\<open>getAi\<close>: "Gemini API key not found. ..."\<close>
  | UpstreamError string
      \<comment> \<open>\<^verbatim>\<open>ai.models.generateContent\<close> rejected, with the message it carried\<close>
  | InvalidCaseFormat
      \<comment> \<open>"The AI model returned an invalid case format. Please try generating the case again."\<close>
  | InvalidDebriefFormat
      \<comment> \<open>"The AI model returned an invalid debrief format."\<close>

text \<open>
  What awaiting \<^verbatim>\<open>ai.models.generateContent(...)\<close> gives: \<open>Inl m\<close> when the promise
  rejects with an Error of message \<open>m\<close>, \<open>Inr t\<close> for a response whose \<^verbatim>\<open>text\<close>
  property is the string \<open>t\<close>.
\<close>

type_synonym upstream = "string + string"

text \<open>The \<^verbatim>\<open>message\<close> of the Error thrown.\<close>

fun error_message :: "error \<Rightarrow> string" where
  "error_message ApiKeyMissing =
     ''Gemini API key not found. Please ensure the API_KEY environment variable is set.''"
| "error_message (UpstreamError m) = m"
| "error_message InvalidCaseFormat =
     ''The AI model returned an invalid case format. Please try generating the case again.''"
| "error_message InvalidDebriefFormat = ''The AI model returned an invalid debrief format.''"

text \<open>
  \<^verbatim>\<open>getAi\<close> of services/geminiService.ts: throws when \<^verbatim>\<open>process.env.API_KEY\<close> is
  falsy, that is undefined or the empty string.
\<close>

definition getAi :: "string option \<Rightarrow> error + unit" where
  "getAi apiKey =
     (case apiKey of
        None \<Rightarrow> Inl ApiKeyMissing
      | Some k \<Rightarrow> if k = [] then Inl ApiKeyMissing else Inr ())"

section \<open>JSON values\<close>

text \<open>
  The values that \<^verbatim>\<open>JSON.parse\<close> returns and \<^verbatim>\<open>JSON.stringify\<close> prints.  An object
  is the list of its members in the order in which its keys are enumerated.
  A number is an integer: the numbers that the modelled functions produce or
  test (a length, a hint count, a comparison with 0) are integers.
\<close>

datatype json =
    JNull
  | JBool bool
  | JNum int
  | JStr string
  | JArr "json list"
  | JObj "(string \<times> json) list"

text \<open>
  Reading a property of a value, \<open>None\<close> for \<^verbatim>\<open>undefined\<close>.  When a key occurs twice
  in a parsed text the later member wins.  The property names read below
  (\<^verbatim>\<open>title\<close>, \<^verbatim>\<open>drugRelatedProblems\<close>, \<^verbatim>\<open>stepwiseReasoning\<close>, \<^verbatim>\<open>learningPearls\<close>) are
  not names of the built-in prototypes, so only own properties count.  Reading
  a property of \<^verbatim>\<open>null\<close> throws; the callers test for \<open>JNull\<close> first.
\<close>

fun get_member :: "json \<Rightarrow> string \<Rightarrow> json option" where
  "get_member (JObj kvs) k = map_of (rev kvs) k"
| "get_member _ k = None"

text \<open>\<^verbatim>\<open>ToBoolean\<close>, on a value or \<^verbatim>\<open>undefined\<close>.\<close>

fun truthy :: "json option \<Rightarrow> bool" where
  "truthy None = False"
| "truthy (Some JNull) = False"
| "truthy (Some (JBool b)) = b"
| "truthy (Some (JNum n)) = (n \<noteq> 0)"
| "truthy (Some (JStr s)) = (s \<noteq> [])"
| "truthy (Some (JArr xs)) = True"
| "truthy (Some (JObj kvs)) = True"

text \<open>
  The property \<^verbatim>\<open>length\<close>: arrays and strings have their own, an object has it
  when it has a member of that name, a boolean or a number has none.
\<close>

fun js_length :: "json \<Rightarrow> json option" where
  "js_length (JArr xs) = Some (JNum (int (length xs)))"
| "js_length (JStr s) = Some (JNum (int (length s)))"
| "js_length (JObj kvs) = get_member (JObj kvs) ''length''"
| "js_length _ = None"

subsection \<open>\<^verbatim>\<open>JSON.stringify\<close>\<close>

definition digit_char :: "nat \<Rightarrow> char" where
  "digit_char d = char_of (48 + d)"

function show_nat :: "nat \<Rightarrow> string" where
  "show_nat n = (if n < 10 then [digit_char n] else show_nat (n div 10) @ [digit_char (n mod 10)])"
  by pat_completeness auto
termination
  by (relation "measure (\<lambda>n. n)") auto

declare show_nat.simps [simp del]

definition show_int :: "int \<Rightarrow> string" where
  "show_int i = (if i < 0 then CHR ''-'' # show_nat (nat (- i)) else show_nat (nat i))"

definition hex_char :: "nat \<Rightarrow> char" where
  "hex_char d = (if d < 10 then char_of (48 + d) else char_of (87 + d))"

text \<open>
  One character inside a string literal: the quotation mark, the backslash
  and the control characters are escaped, as \<^verbatim>\<open>QuoteJSONString\<close> does.
\<close>

definition escape_char :: "char \<Rightarrow> string" where
  "escape_char c =
     (if c = CHR 0x22 then [CHR 0x5C, CHR 0x22]
      else if c = CHR 0x5C then [CHR 0x5C, CHR 0x5C]
      else if c = CHR 0x08 then [CHR 0x5C, CHR ''b'']
      else if c = CHR 0x0C then [CHR 0x5C, CHR ''f'']
      else if c = CHR 0x0A then [CHR 0x5C, CHR ''n'']
      else if c = CHR 0x0D then [CHR 0x5C, CHR ''r'']
      else if c = CHR 0x09 then [CHR 0x5C, CHR ''t'']
      else if (of_char c :: nat) < 32
      then [CHR 0x5C, CHR ''u'', CHR ''0'', CHR ''0'',
            hex_char ((of_char c :: nat) div 16), hex_char ((of_char c :: nat) mod 16)]
      else [c])"

definition quote :: "string \<Rightarrow> string" where
  "quote s = CHR 0x22 # concat (map escape_char s) @ [CHR 0x22]"

text \<open>\<^verbatim>\<open>parts.join(sep)\<close>\<close>

fun join :: "string \<Rightarrow> string list \<Rightarrow> string" where
  "join sep [] = []"
| "join sep [x] = x"
| "join sep (x # y # ys) = x @ sep @ join sep (y # ys)"

text \<open>\<^verbatim>\<open>JSON.stringify(value)\<close> with no indentation.\<close>

fun JSON_stringify :: "json \<Rightarrow> string"
  and stringify_elements :: "json list \<Rightarrow> string list"
  and stringify_members :: "(string \<times> json) list \<Rightarrow> string list" where
  "JSON_stringify JNull = ''null''"
| "JSON_stringify (JBool b) = (if b then ''true'' else ''false'')"
| "JSON_stringify (JNum n) = show_int n"
| "JSON_stringify (JStr s) = quote s"
| "JSON_stringify (JArr xs) = ''['' @ join '','' (stringify_elements xs) @ '']''"
| "JSON_stringify (JObj kvs) = ''{'' @ join '','' (stringify_members kvs) @ ''}''"
| "stringify_elements [] = []"
| "stringify_elements (x # xs) = JSON_stringify x # stringify_elements xs"
| "stringify_members [] = []"
| "stringify_members ((k, v) # kvs) = (quote k @ '':'' @ JSON_stringify v) # stringify_members kvs"

subsection \<open>A reference \<^verbatim>\<open>JSON.parse\<close>\<close>

text \<open>
  \<^verbatim>\<open>JSON.parse\<close> belongs to the platform, not to the repository: the functions
  below that call it take it as the parameter \<open>parse\<close>, a function from the text
  to the value, \<open>None\<close> when it throws a SyntaxError, and their properties are
  proved for every such function.  The recursive-descent parser of this
  subsection instantiates the parameter where a property is checked on a
  concrete text.  It follows the JSON grammar on texts whose numbers are
  integer literals and whose \<^verbatim>\<open>\u\<close> escapes stay below 256; a number with a
  fraction or an exponent and a higher escape are outside this fragment, and
  the reference parser answers \<open>None\<close> on them too.
\<close>

definition is_json_ws :: "char \<Rightarrow> bool" where
  "is_json_ws c = (c = CHR '' '' \<or> c = CHR 0x09 \<or> c = CHR 0x0A \<or> c = CHR 0x0D)"

definition skip_ws :: "string \<Rightarrow> string" where
  "skip_ws s = dropWhile is_json_ws s"

definition is_digit :: "char \<Rightarrow> bool" where
  "is_digit c = (48 \<le> (of_char c :: nat) \<and> (of_char c :: nat) \<le> 57)"

definition hex_val :: "char \<Rightarrow> nat option" where
  "hex_val c =
     (let n = (of_char c :: nat) in
      if 48 \<le> n \<and> n \<le> 57 then Some (n - 48)
      else if 97 \<le> n \<and> n \<le> 102 then Some (n - 87)
      else if 65 \<le> n \<and> n \<le> 70 then Some (n - 55)
      else None)"

text \<open>The character that a backslash and \<open>e\<close> stand for, \<^verbatim>\<open>\u\<close> apart.\<close>

definition unescape :: "char \<Rightarrow> char option" where
  "unescape e =
     (if e = CHR 0x22 then Some (CHR 0x22)
      else if e = CHR 0x5C then Some (CHR 0x5C)
      else if e = CHR ''/'' then Some (CHR ''/'')
      else if e = CHR ''b'' then Some (CHR 0x08)
      else if e = CHR ''f'' then Some (CHR 0x0C)
      else if e = CHR ''n'' then Some (CHR 0x0A)
      else if e = CHR ''r'' then Some (CHR 0x0D)
      else if e = CHR ''t'' then Some (CHR 0x09)
      else None)"

text \<open>The code unit of four hexadecimal digits, when it is below 256.\<close>

definition hex4 :: "char \<Rightarrow> char \<Rightarrow> char \<Rightarrow> char \<Rightarrow> char option" where
  "hex4 h1 h2 h3 h4 =
     (case hex_val h1 of None \<Rightarrow> None | Some a \<Rightarrow>
      case hex_val h2 of None \<Rightarrow> None | Some b \<Rightarrow>
      case hex_val h3 of None \<Rightarrow> None | Some c \<Rightarrow>
      case hex_val h4 of None \<Rightarrow> None | Some d \<Rightarrow>
        if a = 0 \<and> b = 0 then Some (char_of (16 * c + d)) else None)"

text \<open>The characters of a string literal after its opening quotation mark, and the rest.\<close>

fun parse_chars :: "string \<Rightarrow> (string \<times> string) option" where
  "parse_chars [] = None"
| "parse_chars (c # r) =
     (if c = CHR 0x22 then Some ([], r)
      else if c = CHR 0x5C then
        (case r of
           [] \<Rightarrow> None
         | e # r' \<Rightarrow>
            if e = CHR ''u'' then
              (case r' of
                 h1 # h2 # h3 # h4 # r'' \<Rightarrow>
                   (case hex4 h1 h2 h3 h4 of
                      None \<Rightarrow> None
                    | Some ch \<Rightarrow> map_option (\<lambda>(str, t). (ch # str, t)) (parse_chars r''))
               | _ \<Rightarrow> None)
            else
              (case unescape e of
                 None \<Rightarrow> None
               | Some ch \<Rightarrow> map_option (\<lambda>(str, t). (ch # str, t)) (parse_chars r')))
      else if (of_char c :: nat) < 32 then None
      else map_option (\<lambda>(str, t). (c # str, t)) (parse_chars r))"

definition digits_value :: "string \<Rightarrow> nat" where
  "digits_value ds = foldl (\<lambda>a d. 10 * a + ((of_char d :: nat) - 48)) 0 ds"

text \<open>
  An integer literal: an optional minus sign, then 0 or a digit string that
  does not start with 0.  After a leading 0 a further digit can start neither
  a value nor a separator, so the text as a whole is rejected there.
\<close>

definition parse_number :: "string \<Rightarrow> (json \<times> string) option" where
  "parse_number s =
     (let neg = (case s of [] \<Rightarrow> False | c # _ \<Rightarrow> c = CHR ''-'');
          r = (if neg then drop 1 s else s);
          ds = takeWhile is_digit r;
          rest = dropWhile is_digit r
      in if ds = [] then None
         else if take 1 ds = ''0'' \<and> length ds > 1 then None
         else if take 1 rest = ''.'' \<or> take 1 rest = ''e'' \<or> take 1 rest = ''E'' then None
         else Some (JNum (if neg then - int (digits_value ds) else int (digits_value ds)), rest))"

text \<open>
  A value, the elements of an array after its opening bracket, and the members
  of an object after its opening brace.  The first argument bounds the depth
  of the calls.
\<close>

fun parse_value :: "nat \<Rightarrow> string \<Rightarrow> (json \<times> string) option"
  and parse_elements :: "nat \<Rightarrow> string \<Rightarrow> (json list \<times> string) option"
  and parse_members :: "nat \<Rightarrow> string \<Rightarrow> ((string \<times> json) list \<times> string) option" where
  "parse_value 0 s = None"
| "parse_value (Suc n) s =
     (case skip_ws s of
        [] \<Rightarrow> None
      | c # r \<Rightarrow>
         if c = CHR 0x22 then map_option (\<lambda>(str, t). (JStr str, t)) (parse_chars r)
         else if c = CHR ''['' then
           (case skip_ws r of
              [] \<Rightarrow> None
            | c' # r' \<Rightarrow>
               if c' = CHR '']'' then Some (JArr [], r')
               else map_option (\<lambda>(xs, t). (JArr xs, t)) (parse_elements n (c' # r')))
         else if c = CHR ''{'' then
           (case skip_ws r of
              [] \<Rightarrow> None
            | c' # r' \<Rightarrow>
               if c' = CHR ''}'' then Some (JObj [], r')
               else map_option (\<lambda>(kvs, t). (JObj kvs, t)) (parse_members n (c' # r')))
         else if take 4 (c # r) = ''true'' then Some (JBool True, drop 4 (c # r))
         else if take 5 (c # r) = ''false'' then Some (JBool False, drop 5 (c # r))
         else if take 4 (c # r) = ''null'' then Some (JNull, drop 4 (c # r))
         else parse_number (c # r))"
| "parse_elements 0 s = None"
| "parse_elements (Suc n) s =
     (case parse_value n s of
        None \<Rightarrow> None
      | Some (v, r) \<Rightarrow>
         (case skip_ws r of
            [] \<Rightarrow> None
          | c # r' \<Rightarrow>
             if c = CHR '','' then map_option (\<lambda>(vs, t). (v # vs, t)) (parse_elements n r')
             else if c = CHR '']'' then Some ([v], r')
             else None))"
| "parse_members 0 s = None"
| "parse_members (Suc n) s =
     (case skip_ws s of
        [] \<Rightarrow> None
      | c # r \<Rightarrow>
         if c \<noteq> CHR 0x22 then None
         else
          (case parse_chars r of
             None \<Rightarrow> None
           | Some (k, r1) \<Rightarrow>
              (case skip_ws r1 of
                 [] \<Rightarrow> None
               | c1 # r2 \<Rightarrow>
                  if c1 \<noteq> CHR '':'' then None
                  else
                   (case parse_value n r2 of
                      None \<Rightarrow> None
                    | Some (v, r3) \<Rightarrow>
                       (case skip_ws r3 of
                          [] \<Rightarrow> None
                        | c3 # r4 \<Rightarrow>
                           if c3 = CHR '','' then
                             map_option (\<lambda>(kvs, t). ((k, v) # kvs, t)) (parse_members n r4)
                           else if c3 = CHR ''}'' then Some ([(k, v)], r4)
                           else None)))))"

text \<open>
  The whole text must be one value between optional white space.  The bound on
  the depth is twice the length of the text; a larger bound gives the same
  result (\<open>JSON_parse_fuel\<close> below), so the bound is never the reason for \<open>None\<close>.
\<close>

definition JSON_parse :: "string \<Rightarrow> json option" where
  "JSON_parse s =
     (case parse_value (2 * length s + 1) s of
        None \<Rightarrow> None
      | Some (v, r) \<Rightarrow> if skip_ws r = [] then Some v else None)"

subsection \<open>Measures used in the proofs about the reference parser\<close>

text \<open>What may follow a value in a text printed without white space.\<close>

definition closes :: "string \<Rightarrow> bool" where
  "closes rest = (case rest of [] \<Rightarrow> True | c # _ \<Rightarrow> c = CHR '','' \<or> c = CHR '']'' \<or> c = CHR ''}'')"

text \<open>The number of nested parser calls that reading a printed value back takes.\<close>

fun depth :: "json \<Rightarrow> nat"
  and depth_elements :: "json list \<Rightarrow> nat"
  and depth_members :: "(string \<times> json) list \<Rightarrow> nat" where
  "depth (JArr xs) = Suc (depth_elements xs)"
| "depth (JObj kvs) = Suc (depth_members kvs)"
| "depth _ = 1"
| "depth_elements [] = 0"
| "depth_elements (x # xs) = Suc (max (depth x) (depth_elements xs))"
| "depth_members [] = 0"
| "depth_members ((k, v) # kvs) = Suc (max (depth v) (depth_members kvs))"

text \<open>How a printed value can start: not with white space and not with a closing bracket.\<close>

definition opens :: "string \<Rightarrow> bool" where
  "opens s = (case s of [] \<Rightarrow> False
              | c # _ \<Rightarrow> \<not> is_json_ws c \<and> c \<noteq> CHR '']'' \<and> c \<noteq> CHR ''}'')"


section \<open>The case generator\<close>

text \<open>
  The body of the \<^verbatim>\<open>try\<close> block of \<^verbatim>\<open>generateCase\<close> in services/geminiService.ts,
  with the three ways it can throw: \<^verbatim>\<open>JSON.parse\<close> rejects the text, a property is
  read on \<^verbatim>\<open>null\<close>, or the basic validation fails.
\<close>

datatype try_error = SyntaxError | NullRead | MissingFields

definition generateCase_try :: "(string \<Rightarrow> json option) \<Rightarrow> string \<Rightarrow> try_error + json" where
  "generateCase_try parse text =
     (let jsonText = trim text in
      case parse jsonText of
        None \<Rightarrow> Inl SyntaxError
      | Some caseData \<Rightarrow>
         if caseData = JNull then Inl NullRead
         else if \<not> truthy (get_member caseData ''title'')
                 \<or> \<not> truthy (get_member caseData ''drugRelatedProblems'')
                 \<or> (case get_member caseData ''drugRelatedProblems'' of
                       None \<Rightarrow> False
                     | Some d \<Rightarrow> js_length d = Some (JNum 0))
         then Inl MissingFields
         else Inr caseData)"

text \<open>
  \<^verbatim>\<open>generateCase\<close> of services/geminiService.ts, the module that index.tsx
  imports.  \<^verbatim>\<open>getAi\<close> and the request are outside the \<^verbatim>\<open>try\<close> block; whatever
  is thrown inside it is replaced by the one "invalid case format" Error.
  The prompt is built from the filters and does not enter the result.  The
  value returned is the parsed document itself (\<^verbatim>\<open>caseData as PharmacyCase\<close> is an
  unchecked cast).
\<close>

definition generateCase :: "(string \<Rightarrow> json option) \<Rightarrow> string option \<Rightarrow> upstream \<Rightarrow> error + json" where
  "generateCase parse apiKey response =
     (case getAi apiKey of
        Inl e \<Rightarrow> Inl e
      | Inr _ \<Rightarrow>
         (case response of
            Inl m \<Rightarrow> Inl (UpstreamError m)
          | Inr text \<Rightarrow>
             (case generateCase_try parse text of
                Inl _ \<Rightarrow> Inl InvalidCaseFormat
              | Inr caseData \<Rightarrow> Inr caseData)))"

text \<open>
  \<^verbatim>\<open>text.replace(/```json\n?|```/g, '')\<close>: scanning from the left, every match of
  the first alternative, and where it does not match of the second, is removed.
\<close>

fun strip_fences :: "string \<Rightarrow> string" where
  "strip_fences [] = []"
| "strip_fences (c # cs) =
     (if take 7 (c # cs) = ''```json''
      then (if take 1 (drop 6 cs) = [CHR 0x0A] then strip_fences (drop 7 cs)
            else strip_fences (drop 6 cs))
      else if take 3 (c # cs) = ''```'' then strip_fences (drop 2 cs)
      else c # strip_fences cs)"

text \<open>
  \<^verbatim>\<open>safeJSONParse\<close> of the unnamed source file: whatever \<^verbatim>\<open>JSON.parse\<close> throws is
  caught and the fallback returned.
\<close>

definition safeJSONParse :: "(string \<Rightarrow> json option) \<Rightarrow> string \<Rightarrow> json \<Rightarrow> json" where
  "safeJSONParse parse jsonString fallback =
     (let cleanedString = trim (strip_fences jsonString) in
      case parse cleanedString of
        None \<Rightarrow> fallback
      | Some v \<Rightarrow> v)"

text \<open>A text between triple-backtick fences with the language tag \<^verbatim>\<open>json\<close>.\<close>

definition fence :: "string \<Rightarrow> string" where
  "fence s = ''```json'' @ [CHR 0x0A] @ s @ [CHR 0x0A] @ ''```''"

text \<open>
  \<^verbatim>\<open>generateCase\<close> of the unnamed source file: no validation, and the empty object
  as the fallback.
\<close>

definition generateCase_unnamed :: "(string \<Rightarrow> json option) \<Rightarrow> upstream \<Rightarrow> error + json" where
  "generateCase_unnamed parse response =
     (case response of
        Inl m \<Rightarrow> Inl (UpstreamError m)
      | Inr text \<Rightarrow> Inr (safeJSONParse parse text (JObj [])))"

text \<open>
  What the specification asks of a generated case: four candidate problems,
  exactly one of them flagged correct.
\<close>

definition four_problems_one_correct :: "json \<Rightarrow> bool" where
  "four_problems_one_correct c =
     (case get_member c ''drugRelatedProblems'' of
        Some (JArr ds) \<Rightarrow>
          length ds = 4
          \<and> length (filter (\<lambda>d. get_member d ''isCorrect'' = Some (JBool True)) ds) = 1
      | _ \<Rightarrow> False)"

text \<open>The \<^verbatim>\<open>required\<close> list of \<^verbatim>\<open>caseSchema\<close> in services/geminiService.ts.\<close>

definition caseSchema_required :: "string list" where
  "caseSchema_required =
     [''title'', ''patientProfile'', ''tags'', ''chiefComplaint'', ''historyOfPresentIllness'',
      ''medicationHistory'', ''physicalExam'', ''labResults'', ''drugRelatedProblems'', ''mcqs'',
      ''correctProblemExplanation'']"

text \<open>A document that has every required property.\<close>

definition fully_populated :: "json \<Rightarrow> bool" where
  "fully_populated c = list_all (\<lambda>f. get_member c f \<noteq> None) caseSchema_required"

text \<open>Whether a text holds three backticks in a row.\<close>

fun has_fence :: "string \<Rightarrow> bool" where
  "has_fence [] = False"
| "has_fence (c # cs) = (take 3 (c # cs) = ''```'' \<or> has_fence cs)"

text \<open>
  A document with a title and a single candidate problem that is not flagged
  correct.  Its JSON text is
  \<^verbatim>\<open>{"title":"T","drugRelatedProblems":[{"problem":"p","isCorrect":false}]}\<close>.
\<close>

definition one_problem_doc :: json where
  "one_problem_doc =
     JObj [(''title'', JStr ''T''),
           (''drugRelatedProblems'',
              JArr [JObj [(''problem'', JStr ''p''), (''isCorrect'', JBool False)]])]"

section \<open>The debrief generator\<close>

definition generateDebrief_try :: "(string \<Rightarrow> json option) \<Rightarrow> string \<Rightarrow> try_error + json" where
  "generateDebrief_try parse text =
     (let jsonText = trim text in
      case parse jsonText of
        None \<Rightarrow> Inl SyntaxError
      | Some debriefData' \<Rightarrow>
         if debriefData' = JNull then Inl NullRead
         else if \<not> truthy (get_member debriefData' ''stepwiseReasoning'')
                 \<or> \<not> truthy (get_member debriefData' ''learningPearls'')
         then Inl MissingFields
         else Inr debriefData')"

text \<open>
  \<^verbatim>\<open>generateDebrief\<close> of services/geminiService.ts.  The case and the selected
  problem go into the prompt only.
\<close>

definition generateDebrief :: "(string \<Rightarrow> json option) \<Rightarrow> string option \<Rightarrow> upstream \<Rightarrow> error + json" where
  "generateDebrief parse apiKey response =
     (case getAi apiKey of
        Inl e \<Rightarrow> Inl e
      | Inr _ \<Rightarrow>
         (case response of
            Inl m \<Rightarrow> Inl (UpstreamError m)
          | Inr text \<Rightarrow>
             (case generateDebrief_try parse text of
                Inl _ \<Rightarrow> Inl InvalidDebriefFormat
              | Inr debriefData' \<Rightarrow> Inr debriefData')))"

text \<open>The fallback object of \<^verbatim>\<open>generateDebrief\<close> in the unnamed source file.\<close>

definition debrief_fallback :: json where
  "debrief_fallback =
     JObj [(''reasoning'', JStr ''Could not generate debrief.''),
           (''learningPearls'', JArr []), (''citations'', JArr [])]"

definition generateDebrief_unnamed :: "(string \<Rightarrow> json option) \<Rightarrow> upstream \<Rightarrow> error + json" where
  "generateDebrief_unnamed parse response =
     (case response of
        Inl m \<Rightarrow> Inl (UpstreamError m)
      | Inr text \<Rightarrow> Inr (safeJSONParse parse text debrief_fallback))"

section \<open>The specialty picker\<close>

definition validSpecialties :: "string list" where
  "validSpecialties =
     [''Community Pharmacy'', ''Hospital Pharmacy'', ''Clinical Pharmacy'', ''Industrial Pharmacy'']"

text \<open>
  \<^verbatim>\<open>pickPharmacyAreaForCase\<close> of services/geminiService.ts.  The prompt depends on
  the training phase only and does not enter the result.
\<close>

definition pickPharmacyAreaForCase :: "string option \<Rightarrow> upstream \<Rightarrow> error + string" where
  "pickPharmacyAreaForCase apiKey response =
     (case getAi apiKey of
        Inl e \<Rightarrow> Inl e
      | Inr _ \<Rightarrow>
         (case response of
            Inl m \<Rightarrow> Inl (UpstreamError m)
          | Inr text \<Rightarrow>
             (let specialty = trim text in
              if specialty \<in> set validSpecialties then Inr specialty
              else Inr ''Community Pharmacy'')))"

text \<open>
  The variant of the unnamed source file: a module-level client, hence no
  \<^verbatim>\<open>getAi\<close> call; the rest is the same.
\<close>

definition pickPharmacyAreaForCase_unnamed :: "upstream \<Rightarrow> error + string" where
  "pickPharmacyAreaForCase_unnamed response =
     (case response of
        Inl m \<Rightarrow> Inl (UpstreamError m)
      | Inr text \<Rightarrow>
         (let textResponse = trim text in
          if textResponse \<in> set validSpecialties then Inr textResponse
          else Inr ''Community Pharmacy''))"

section \<open>Notifications\<close>

text \<open>
  The \<^verbatim>\<open>Notification\<close> rows of services/supabaseService.ts; the fields \<^verbatim>\<open>id\<close>,
  \<^verbatim>\<open>title\<close> and \<^verbatim>\<open>message\<close> carry the prefix \<open>n_\<close>.
\<close>

record notification =
  n_id :: int
  n_title :: string
  n_message :: string
  is_read :: bool

record notification_state =
  session_user :: "string option"
  notifications :: "notification list"
  unreadCount :: int

text \<open>
  \<^verbatim>\<open>markNotificationAsRead\<close> of index.tsx.  \<open>success\<close> is what the remote write
  \<^verbatim>\<open>supabaseMarkNotificationAsRead\<close> resolves to.
\<close>

definition markNotificationAsRead :: "notification_state \<Rightarrow> int \<Rightarrow> bool \<Rightarrow> notification_state" where
  "markNotificationAsRead st notificationId success =
     (case session_user st of
        None \<Rightarrow> st
      | Some _ \<Rightarrow>
         (let originalNotifications = notifications st;
              originalCount = unreadCount st;
              st1 = st\<lparr>notifications :=
                        map (\<lambda>n. if n_id n = notificationId then n\<lparr>is_read := True\<rparr> else n)
                          (notifications st)\<rparr>;
              st2 = st1\<lparr>unreadCount := max 0 (unreadCount st1 - 1)\<rparr>
          in if \<not> success
             then st2\<lparr>notifications := originalNotifications, unreadCount := originalCount\<rparr>
             else st2))"

text \<open>
  A sequence of calls, each with the notification id and the outcome of its
  remote write; a call has finished before the next one starts.
\<close>

fun markMany :: "notification_state \<Rightarrow> (int \<times> bool) list \<Rightarrow> notification_state" where
  "markMany st [] = st"
| "markMany st ((n, ok) # calls) = markMany (markNotificationAsRead st n ok) calls"

section \<open>Finishing a case\<close>

record DrugRelatedProblem =
  problem :: string
  isCorrect :: bool

text \<open>
  The \<^verbatim>\<open>PharmacyCase\<close> interface, with the fields the modelled functions read.
  The patient profile, the tags and the multiple-choice questions are only
  rendered.
\<close>

record PharmacyCase =
  title :: string
  chiefComplaint :: string
  historyOfPresentIllness :: string
  medicationHistory :: string
  physicalExam :: string
  labResults :: string
  drugRelatedProblems :: "DrugRelatedProblem list"
  correctProblemExplanation :: string

record SimulationResult =
  problemCorrect :: bool
  timeTaken :: int
  selectedProblem :: string

datatype page = PageHome | PageSimulation | PageDebrief | PageCallback

datatype sender = User | Patient | System

record ChatMessage =
  sender :: sender
  msg_text :: string
  timestamp :: string

text \<open>
  The state that \<^verbatim>\<open>SimulationPage\<close> and the application context hold between
  them and that the handlers below read or write.  \<open>startTime\<close> is
  \<^verbatim>\<open>startTimeRef.current\<close> in milliseconds; \<open>localStorage\<close> is the browser's
  key/value store; \<open>hintRequests\<close> counts the calls of \<^verbatim>\<open>generateHint\<close>, which
  the source does not store, so that "no request is issued" can be stated.
\<close>

record sim_state =
  currentCase :: "PharmacyCase option"
  hintCount :: int
  isGeneratingHint :: bool
  messages :: "ChatMessage list"
  isFinishing :: bool
  simulationResult :: "SimulationResult option"
  page :: page
  startTime :: int
  localStorage :: "string \<rightharpoonup> string"
  hintRequests :: nat
  debriefData :: "json option"
  isGeneratingDebrief :: bool
  debriefError :: "string option"

text \<open>
  \<^verbatim>\<open>handleFinishCase\<close> of index.tsx at time \<open>now\<close> (\<^verbatim>\<open>Date.now()\<close>, milliseconds).
  \<^verbatim>\<open>Math.round\<close> rounds halves up, so on an integer number of milliseconds
  \<^verbatim>\<open>Math.round(x / 1000)\<close> is \<open>(x + 500) div 1000\<close>.  \<^verbatim>\<open>find(...)?.problem\<close> is
  \<^verbatim>\<open>undefined\<close> when no entry is flagged, and \<^verbatim>\<open>===\<close> of a string with
  \<^verbatim>\<open>undefined\<close> is false: the comparison is an equality of options.
\<close>

definition handleFinishCase :: "sim_state \<Rightarrow> int \<Rightarrow> string \<Rightarrow> sim_state" where
  "handleFinishCase st now selected =
     (case currentCase st of
        None \<Rightarrow> st
      | Some c \<Rightarrow>
         (let timeTaken' = (now - startTime st + 500) div 1000;
              correctProblem = map_option problem (find isCorrect (drugRelatedProblems c));
              isCorrect' = (Some selected = correctProblem);
              chatHistoryKey = ''chatHistory_'' @ title c
          in st\<lparr>simulationResult :=
                    Some \<lparr>problemCorrect = isCorrect', timeTaken = timeTaken',
                          selectedProblem = selected\<rparr>,
                 localStorage := (localStorage st)(chatHistoryKey := None),
                 isFinishing := False,
                 page := PageDebrief\<rparr>))"

text \<open>A case with four candidate problems, the second one correct, and a session on it.\<close>

definition example_case :: PharmacyCase where
  "example_case =
     \<lparr>title = ''Counseling'', chiefComplaint = ''Dizzy'', historyOfPresentIllness = ''Two days'',
      medicationHistory = ''Amlodipine'', physicalExam = ''Vitals: BP 100/60'',
      labResults = ''CBC: WBC 7.1'',
      drugRelatedProblems =
        [\<lparr>problem = ''A'', isCorrect = False\<rparr>, \<lparr>problem = ''B'', isCorrect = True\<rparr>,
         \<lparr>problem = ''C'', isCorrect = False\<rparr>, \<lparr>problem = ''D'', isCorrect = False\<rparr>],
      correctProblemExplanation = ''Because''\<rparr>"

definition example_state :: sim_state where
  "example_state =
     \<lparr>currentCase = Some example_case, hintCount = 10, isGeneratingHint = False,
      messages = [], isFinishing = False, simulationResult = None, page = PageSimulation,
      startTime = 0, localStorage = Map.empty, hintRequests = 0, debriefData = None,
      isGeneratingDebrief = False, debriefError = None\<rparr>"

section \<open>Debrief and hints in the application state\<close>

text \<open>
  \<^verbatim>\<open>handleGenerateDebrief\<close> of index.tsx; \<open>outcome\<close> is what awaiting
  \<^verbatim>\<open>generateDebrief\<close> gives, \<open>Inl\<close> for a rejection.  The debrief page renders
  \<open>debriefError\<close>, when set, in an info box.
\<close>

definition handleGenerateDebrief :: "sim_state \<Rightarrow> error + json \<Rightarrow> sim_state" where
  "handleGenerateDebrief st outcome =
     (if currentCase st = None \<or> simulationResult st = None then st
      else
       (let st1 = st\<lparr>isGeneratingDebrief := True, debriefError := None\<rparr>;
            st2 = (case outcome of
                     Inr result \<Rightarrow> st1\<lparr>debriefData := Some result\<rparr>
                   | Inl e \<Rightarrow>
                       st1\<lparr>debriefError :=
                             Some (''Failed to generate debrief. '' @ error_message e)\<rparr>)
        in st2\<lparr>isGeneratingDebrief := False\<rparr>))"

definition HINT_STORAGE_KEY :: string where
  "HINT_STORAGE_KEY = ''medanna_hintUsage_v2''"

text \<open>\<^verbatim>\<open>updateHintCount\<close> of index.tsx; \<open>today\<close> is the date part of the current ISO time.\<close>

definition updateHintCount :: "sim_state \<Rightarrow> int \<Rightarrow> string \<Rightarrow> sim_state" where
  "updateHintCount st newCount today =
     st\<lparr>hintCount := newCount,
        localStorage := (localStorage st)(HINT_STORAGE_KEY \<mapsto>
          JSON_stringify (JObj [(''count'', JNum newCount), (''date'', JStr today)]))\<rparr>"

text \<open>
  \<^verbatim>\<open>handleRequestHint\<close> of index.tsx.  \<open>outcome\<close> is what awaiting \<^verbatim>\<open>generateHint\<close>
  gives (\<open>Inl\<close> when \<^verbatim>\<open>getAi\<close> throws or the request is rejected), \<open>now\<close> the ISO
  time stamp of the new message.
\<close>

definition handleRequestHint :: "sim_state \<Rightarrow> error + string \<Rightarrow> string \<Rightarrow> string \<Rightarrow> sim_state" where
  "handleRequestHint st outcome now today =
     (if currentCase st = None \<or> hintCount st \<le> 0 \<or> isGeneratingHint st then st
      else
       (let st1 = st\<lparr>isGeneratingHint := True, hintRequests := hintRequests st + 1\<rparr>;
            st2 = (case outcome of
                     Inr newHint \<Rightarrow>
                       updateHintCount
                         (st1\<lparr>messages := messages st1 @
                                 [\<lparr>sender = System, msg_text = newHint, timestamp = now\<rparr>]\<rparr>)
                         (hintCount st - 1) today
                   | Inl e \<Rightarrow>
                       st1\<lparr>messages := messages st1 @
                             [\<lparr>sender = System,
                               msg_text = ''Sorry, I couldn't generate a hint right now.'',
                               timestamp = now\<rparr>]\<rparr>)
        in st2\<lparr>isGeneratingHint := False\<rparr>))"

text \<open>
  A run of hint requests, each with its outcome and its two time strings; a
  request has finished before the next one starts.
\<close>

fun requestHints :: "sim_state \<Rightarrow> ((error + string) \<times> string \<times> string) list \<Rightarrow> sim_state" where
  "requestHints st [] = st"
| "requestHints st ((outcome, now, today) # rest) =
     requestHints (handleRequestHint st outcome now today) rest"

text \<open>The example session after the student has submitted the correct problem.\<close>

definition example_finished :: sim_state where
  "example_finished = handleFinishCase example_state 61500 ''B''"

section \<open>Lab results\<close>

text \<open>\<^verbatim>\<open>ALL_INVESTIGATIONS\<close> of index.tsx: the investigations the student can order, by group.\<close>

definition ALL_INVESTIGATIONS :: "(string \<times> string list) list" where
  "ALL_INVESTIGATIONS =
     [(''Bedside Tests'', [''ECG'', ''Blood Glucose'', ''Urine Dipstick'']),
      (''Basic Labs'', [''CBC'', ''CMP'', ''ESR'', ''CRP'', ''TSH'', ''Lipid Profile'', ''LFT'',
                        ''RFT'', ''ABG'']),
      (''Advanced Labs'', [''Troponin'', ''BNP'', ''D-dimer'', ''Coagulation Profile'',
                           ''Blood Culture'', ''HbA1c'']),
      (''Imaging'', [''Chest X-Ray'', ''CT Head'', ''CT Chest'', ''CT Abdomen'',
                     ''Abdominal Ultrasound'', ''Echocardiogram''])]"

text \<open>Every test name of the catalog.\<close>

definition investigation_names :: "string list" where
  "investigation_names = concat (map snd ALL_INVESTIGATIONS)"

text \<open>
  The characters with a meaning of their own in a regular-expression pattern.
  A test name without them is a pattern that matches itself, and
  \<^verbatim>\<open>new RegExp\<close> accepts it.
\<close>

definition regex_syntax_chars :: "char list" where
  "regex_syntax_chars = CHR 0x5C # ''^$.*+?()[]{}|''"

text \<open>
  Case folding of a pattern with the flag \<^verbatim>\<open>i\<close> (no flag \<^verbatim>\<open>u\<close>): a code unit is
  mapped to its upper-case form.  Below 256 that moves a..z and the Latin-1
  small letters (0xE0..0xFE without the division sign 0xF7) down by 32; the
  upper-case forms of 0xB5, 0xDF and 0xFF are not single code units below 256
  and these characters stay as they are.
\<close>

definition canonicalize :: "char \<Rightarrow> char" where
  "canonicalize c =
     (let n = (of_char c :: nat) in
      if (97 \<le> n \<and> n \<le> 122) \<or> (224 \<le> n \<and> n \<le> 254 \<and> n \<noteq> 247)
      then char_of (n - 32) else c)"

text \<open>Matching a literal pattern at the start of a string, ignoring case; the rest on success.\<close>

fun match_literal_ci :: "string \<Rightarrow> string \<Rightarrow> string option" where
  "match_literal_ci [] s = Some s"
| "match_literal_ci (p # ps) [] = None"
| "match_literal_ci (p # ps) (c # cs) =
     (if canonicalize p = canonicalize c then match_literal_ci ps cs else None)"

text \<open>
  The pattern \<^verbatim>\<open>NAME\s*:\s*([^\r\n]*)\<close> matched at the start of a string; the
  result is capture group 1.  Both \<^verbatim>\<open>\s*\<close> are greedy, and since a colon is
  not white space, giving characters back cannot turn a failure into a match.
\<close>

definition lab_regex_at :: "string \<Rightarrow> string \<Rightarrow> string option" where
  "lab_regex_at testName s =
     (case match_literal_ci testName s of
        None \<Rightarrow> None
      | Some r \<Rightarrow>
         (case dropWhile is_js_space r of
            [] \<Rightarrow> None
          | c # r' \<Rightarrow>
             if c = CHR '':''
             then Some (takeWhile (\<lambda>x. x \<noteq> CHR 0x0D \<and> x \<noteq> CHR 0x0A) (dropWhile is_js_space r'))
             else None))"

text \<open>
  \<^verbatim>\<open>fullLabString.match(regex)\<close> without the flag \<^verbatim>\<open>g\<close>: the match at the leftmost
  position that has one.
\<close>

fun lab_regex_exec :: "string \<Rightarrow> string \<Rightarrow> string option" where
  "lab_regex_exec testName [] = lab_regex_at testName []"
| "lab_regex_exec testName (c # cs) =
     (case lab_regex_at testName (c # cs) of
        Some cap \<Rightarrow> Some cap
      | None \<Rightarrow> lab_regex_exec testName cs)"

text \<open>\<^verbatim>\<open>s.split(sep)\<close> for a separator of one character.\<close>

fun split_char :: "char \<Rightarrow> string \<Rightarrow> string list" where
  "split_char sep [] = [[]]"
| "split_char sep (c # cs) =
     (if c = sep then [] # split_char sep cs
      else (case split_char sep cs of
              [] \<Rightarrow> [[c]]
            | p # ps \<Rightarrow> (c # p) # ps))"

text \<open>\<^verbatim>\<open>s.indexOf(ch)\<close>: \<open>None\<close> stands for -1.\<close>

fun indexOf :: "string \<Rightarrow> char \<Rightarrow> nat option" where
  "indexOf [] ch = None"
| "indexOf (c # cs) ch = (if c = ch then Some 0 else map_option Suc (indexOf cs ch))"

datatype lab_result =
    Simple string
  | Report string
  | Values "(string \<times> string) list"

definition not_available :: string where
  "not_available = ''Result not available in this case.''"

text \<open>One element of the \<^verbatim>\<open>values\<close> array: the name up to the first space, the value after it.\<close>

definition lab_value :: "string \<Rightarrow> string \<times> string" where
  "lab_value part =
     (case indexOf part CHR '' '' of
        None \<Rightarrow> (part, [])
      | Some firstSpaceIndex \<Rightarrow> (take firstSpaceIndex part, trim (drop (firstSpaceIndex + 1) part)))"

text \<open>
  \<^verbatim>\<open>parseComplexLabResult\<close> of index.tsx.  The pattern is built from the test name
  by string interpolation.  A name that holds a regular-expression syntax
  character is outside this model (\<^verbatim>\<open>new RegExp\<close> may throw a SyntaxError on it, or
  build another pattern): the model answers \<open>Inl PatternNotLiteral\<close>.
\<close>

datatype regex_error = PatternNotLiteral

definition parseComplexLabResult :: "string \<Rightarrow> string \<Rightarrow> regex_error + lab_result" where
  "parseComplexLabResult testName fullLabString =
     (if \<exists>c \<in> set testName. c \<in> set regex_syntax_chars then Inl PatternNotLiteral
      else
       (let imagingTests = (case map_of ALL_INVESTIGATIONS ''Imaging'' of Some ts \<Rightarrow> ts | None \<Rightarrow> []);
            complexValueTests = [''CBC'', ''CMP'', ''Lipid Profile'', ''LFT'', ''RFT'',
                                 ''Coagulation Profile''];
            resultString = (case lab_regex_exec testName fullLabString of
                              Some cap \<Rightarrow> trim cap
                            | None \<Rightarrow> not_available)
        in if resultString = not_available then Inr (Simple resultString)
           else if testName \<in> set imagingTests then Inr (Report resultString)
           else if testName \<in> set complexValueTests
           then Inr (Values (map lab_value (map trim (split_char CHR '','' resultString))))
           else Inr (Simple resultString)))"

section \<open>Physical examination\<close>

text \<open>\<^verbatim>\<open>\w\<close>: a letter, a digit or the underscore.\<close>

definition is_word_char :: "char \<Rightarrow> bool" where
  "is_word_char c =
     (let n = (of_char c :: nat) in
      (48 \<le> n \<and> n \<le> 57) \<or> (65 \<le> n \<and> n \<le> 90) \<or> (97 \<le> n \<and> n \<le> 122) \<or> n = 95)"

text \<open>
  The lookahead \<^verbatim>\<open>(?=[\w\s]+:\s*)\<close> at the start of a string.  The class does not
  hold the colon, so the only way to match is the longest run of class
  characters, not empty, followed by a colon; \<^verbatim>\<open>\s*\<close> then matches whatever follows.
\<close>

definition header_ahead :: "string \<Rightarrow> bool" where
  "header_ahead s =
     (takeWhile (\<lambda>c. is_word_char c \<or> is_js_space c) s \<noteq> []
      \<and> (case dropWhile (\<lambda>c. is_word_char c \<or> is_js_space c) s of
            [] \<Rightarrow> False
          | c # _ \<Rightarrow> c = CHR '':''))"

text \<open>
  \<^verbatim>\<open>examString.split(/\n(?=[\w\s]+:\s*)/)\<close>: the string is cut at every line feed
  that the lookahead accepts, and the line feed is dropped.  \<open>acc\<close> holds the
  current piece, reversed.
\<close>

fun split_sections :: "string \<Rightarrow> string \<Rightarrow> string list" where
  "split_sections acc [] = [rev acc]"
| "split_sections acc (c # cs) =
     (if c = CHR 0x0A \<and> header_ahead cs then rev acc # split_sections [] cs
      else split_sections (c # acc) cs)"

record exam_section =
  s_title :: string
  s_content :: "string list"

text \<open>The body of the \<^verbatim>\<open>forEach\<close> of \<^verbatim>\<open>ParsedExamDisplay\<close>: one part, given the sections so far.\<close>

definition exam_step :: "exam_section list \<Rightarrow> string \<Rightarrow> exam_section list" where
  "exam_step parsedSections part =
     (let lines = split_char CHR 0x0A (trim part);
          titleLine = (case lines of [] \<Rightarrow> [] | l # _ \<Rightarrow> l);
          lines' = (case lines of [] \<Rightarrow> [] | _ # ls \<Rightarrow> ls)
      in case indexOf titleLine CHR '':'' of
           None \<Rightarrow>
             if length parsedSections > 0
             then butlast parsedSections @
                  [(last parsedSections)\<lparr>s_content := s_content (last parsedSections) @ [trim part]\<rparr>]
             else parsedSections @ [\<lparr>s_title = ''Examination Findings'', s_content = [trim part]\<rparr>]
         | Some colonIndex \<Rightarrow>
            (let title' = trim (take colonIndex titleLine);
                 firstLineContent = trim (drop (colonIndex + 1) titleLine);
                 content = filter (\<lambda>l. l \<noteq> [])
                             ((if firstLineContent \<noteq> [] then [firstLineContent] else [])
                              @ map trim lines')
             in if length content > 0
                then parsedSections @ [\<lparr>s_title = title', s_content = content\<rparr>]
                else parsedSections))"

text \<open>The parts that the \<^verbatim>\<open>forEach\<close> runs over.\<close>

definition exam_parts :: "string \<Rightarrow> string list" where
  "exam_parts examString = filter (\<lambda>p. trim p \<noteq> []) (split_sections [] examString)"

text \<open>The \<^verbatim>\<open>sections\<close> that \<^verbatim>\<open>ParsedExamDisplay\<close> computes from \<^verbatim>\<open>examString\<close>.\<close>

definition ParsedExamDisplay_sections :: "string \<Rightarrow> exam_section list" where
  "ParsedExamDisplay_sections examString =
     (if examString = [] \<or> trim examString = [] then []
      else
       (let parsedSections = foldl exam_step [] (exam_parts examString)
        in if length parsedSections = 0 \<and> length (trim examString) > 0
           then [\<lparr>s_title = ''Examination Findings'', s_content = [trim examString]\<rparr>]
           else parsedSections))"

section \<open>Properties\<close>

subsection \<open>The reference parser reads back what the printer prints\<close>

lemma hex_val_hex_char: "d < 16 \<Longrightarrow> hex_val (hex_char d) = Some d"
  by (auto simp: hex_val_def hex_char_def Let_def)

lemma hex4_escape:
  assumes "(of_char c :: nat) < 32"
  shows "hex4 (CHR ''0'') (CHR ''0'') (hex_char ((of_char c :: nat) div 16))
           (hex_char ((of_char c :: nat) mod 16)) = Some c"
proof -
  let ?n = "of_char c :: nat"
  have a: "?n div 16 < 16" using assms by simp
  have b: "?n mod 16 < 16" by simp
  have z: "hex_val (CHR ''0'') = Some 0" by (simp add: hex_val_def)
  have "char_of (16 * (?n div 16) + ?n mod 16) = c" by simp
  then show ?thesis
    by (simp add: hex4_def z hex_val_hex_char [OF a] hex_val_hex_char [OF b])
qed

lemma parse_chars_escape:
  "parse_chars (escape_char c @ t) = map_option (\<lambda>(str, u). (c # str, u)) (parse_chars t)"
proof -
  consider (quote) "c = CHR 0x22" | (bs) "c = CHR 0x5C" | (b) "c = CHR 0x08" | (f) "c = CHR 0x0C"
    | (n) "c = CHR 0x0A" | (r) "c = CHR 0x0D" | (t) "c = CHR 0x09"
    | (ctl) "c \<notin> {CHR 0x22, CHR 0x5C, CHR 0x08, CHR 0x0C, CHR 0x0A, CHR 0x0D, CHR 0x09}"
        "(of_char c :: nat) < 32"
    | (plain) "c \<notin> {CHR 0x22, CHR 0x5C, CHR 0x08, CHR 0x0C, CHR 0x0A, CHR 0x0D, CHR 0x09}"
        "\<not> (of_char c :: nat) < 32"
    by blast
  then show ?thesis
  proof cases
    case ctl
    then show ?thesis
      by (simp add: escape_char_def hex4_escape)
  next
    case plain
    then show ?thesis
      by (simp add: escape_char_def)
  qed (simp_all add: escape_char_def unescape_def)
qed

lemma parse_chars_quote:
  "parse_chars (concat (map escape_char s) @ CHR 0x22 # rest) = Some (s, rest)"
  by (induction s) (simp_all add: parse_chars_escape)

lemma is_digit_digit_char: "d < 10 \<Longrightarrow> is_digit (digit_char d)"
  by (simp add: is_digit_def digit_char_def)

lemma digit_char_value: "d < 10 \<Longrightarrow> (of_char (digit_char d) :: nat) - 48 = d"
  by (simp add: digit_char_def)

lemma show_nat_digits: "show_nat n \<noteq> [] \<and> (\<forall>c \<in> set (show_nat n). is_digit c)"
proof (induction n rule: show_nat.induct)
  case (1 n)
  show ?case
  proof (cases "n < 10")
    case True
    then show ?thesis by (simp add: show_nat.simps [of n] is_digit_digit_char)
  next
    case False
    with "1.IH" show ?thesis
      by (simp add: show_nat.simps [of n] is_digit_digit_char)
  qed
qed

lemma digits_value_snoc:
  "digits_value (ds @ [d]) = 10 * digits_value ds + ((of_char d :: nat) - 48)"
  by (simp add: digits_value_def)

lemma digits_value_show_nat: "digits_value (show_nat n) = n"
proof (induction n rule: show_nat.induct)
  case (1 n)
  show ?case
  proof (cases "n < 10")
    case True
    then show ?thesis
      by (simp add: show_nat.simps [of n] digits_value_def digit_char_value)
  next
    case False
    with "1.IH" show ?thesis
      by (simp add: show_nat.simps [of n] digits_value_snoc digit_char_value)
  qed
qed

lemma show_nat_no_leading_zero: "0 < n \<Longrightarrow> hd (show_nat n) \<noteq> CHR ''0''"
proof (induction n rule: show_nat.induct)
  case (1 n)
  show ?case
  proof (cases "n < 10")
    case True
    with "1.prems" have "digit_char n \<noteq> CHR ''0''"
      by (simp add: digit_char_def char_of_eq_iff take_bit_eq_mod)
    with True show ?thesis by (simp add: show_nat.simps [of n])
  next
    case False
    then have "0 < n div 10" by simp
    with "1.IH" False have "hd (show_nat (n div 10)) \<noteq> CHR ''0''" by simp
    moreover have "show_nat (n div 10) \<noteq> []" using show_nat_digits by simp
    ultimately show ?thesis using False by (simp add: show_nat.simps [of n])
  qed
qed

lemma show_nat_zero: "show_nat 0 = ''0''"
  by (simp add: show_nat.simps [of 0] digit_char_def char_of_eq_iff)

lemma show_nat_leading:
  "take 1 (show_nat n) = ''0'' \<Longrightarrow> length (show_nat n) = 1"
proof (cases "n = 0")
  case True
  then show ?thesis by (simp add: show_nat_zero)
next
  case False
  then have "hd (show_nat n) \<noteq> CHR ''0''" by (simp add: show_nat_no_leading_zero)
  moreover assume "take 1 (show_nat n) = ''0''"
  ultimately show ?thesis by (cases "show_nat n") auto
qed

lemma takeWhile_digits:
  assumes "\<forall>c \<in> set ds. is_digit c" "closes rest"
  shows "takeWhile is_digit (ds @ rest) = ds" "dropWhile is_digit (ds @ rest) = rest"
proof -
  from assms(2) have r: "takeWhile is_digit rest = []" "dropWhile is_digit rest = rest"
    by (cases rest; auto simp: closes_def is_digit_def)+
  from assms(1) show "takeWhile is_digit (ds @ rest) = ds"
    by (simp add: takeWhile_append2 r)
  from assms(1) show "dropWhile is_digit (ds @ rest) = rest"
    by (simp add: dropWhile_append2 r)
qed

lemma closes_number_end:
  "closes rest \<Longrightarrow> take 1 rest \<noteq> ''.'' \<and> take 1 rest \<noteq> ''e'' \<and> take 1 rest \<noteq> ''E''"
  by (cases rest) (auto simp: closes_def)

lemma parse_number_show_nat:
  assumes "closes rest"
  shows "parse_number (show_nat n @ rest) = Some (JNum (int n), rest)"
proof -
  from show_nat_digits [of n] have ne: "show_nat n \<noteq> []" and dg: "\<forall>c \<in> set (show_nat n). is_digit c"
    by auto
  from ne dg have "is_digit (hd (show_nat n))" by simp
  then have "hd (show_nat n) \<noteq> CHR ''-''" by (auto simp: is_digit_def)
  with ne have neg: "(case show_nat n @ rest of [] \<Rightarrow> False | c # _ \<Rightarrow> c = CHR ''-'') = False"
    by (cases "show_nat n") auto
  show ?thesis
    unfolding parse_number_def Let_def neg
    using takeWhile_digits [OF dg assms] ne show_nat_leading [of n] closes_number_end [OF assms]
    by (auto simp: digits_value_show_nat)
qed

lemma parse_number_show_int:
  assumes "closes rest"
  shows "parse_number (show_int i @ rest) = Some (JNum i, rest)"
proof (cases "i < 0")
  case False
  then show ?thesis
    using parse_number_show_nat [OF assms, of "nat i"] by (simp add: show_int_def)
next
  case True
  let ?n = "nat (- i)"
  from show_nat_digits [of ?n] have ne: "show_nat ?n \<noteq> []" and dg: "\<forall>c \<in> set (show_nat ?n). is_digit c"
    by auto
  have s: "show_int i @ rest = CHR ''-'' # show_nat ?n @ rest"
    using True by (simp add: show_int_def)
  show ?thesis
    unfolding s parse_number_def Let_def
    using takeWhile_digits [OF dg assms] ne show_nat_leading [of ?n] closes_number_end [OF assms] True
    by (auto simp: digits_value_show_nat)
qed

lemma skip_ws_opens: "opens s \<Longrightarrow> skip_ws (s @ t) = s @ t"
  by (cases s) (auto simp: opens_def skip_ws_def)

lemma skip_ws_closes: "closes s \<Longrightarrow> skip_ws s = s"
  by (cases s) (auto simp: closes_def skip_ws_def is_json_ws_def)

lemma show_int_first:
  "\<exists>c t. show_int i = c # t \<and> (is_digit c \<or> c = CHR ''-'')"
proof -
  from show_nat_digits [of "nat \<bar>i\<bar>"] obtain c t where "show_nat (nat \<bar>i\<bar>) = c # t" "is_digit c"
    by (cases "show_nat (nat \<bar>i\<bar>)") auto
  then show ?thesis by (cases "i < 0") (auto simp: show_int_def)
qed

lemma opens_stringify: "opens (JSON_stringify x)"
proof (cases x)
  case (JNum i)
  from show_int_first [of i] obtain c t where "show_int i = c # t" "is_digit c \<or> c = CHR ''-''"
    by blast
  with JNum show ?thesis by (auto simp: opens_def is_json_ws_def is_digit_def)
qed (simp_all add: opens_def is_json_ws_def quote_def)

lemma parse_value_null: "parse_value (Suc n) (''null'' @ rest) = Some (JNull, rest)"
  by (simp add: skip_ws_def is_json_ws_def)

lemma parse_value_true: "parse_value (Suc n) (''true'' @ rest) = Some (JBool True, rest)"
  by (simp add: skip_ws_def is_json_ws_def)

lemma parse_value_false: "parse_value (Suc n) (''false'' @ rest) = Some (JBool False, rest)"
  by (simp add: skip_ws_def is_json_ws_def)

lemma parse_value_string: "parse_value (Suc n) (quote s @ rest) = Some (JStr s, rest)"
  by (simp add: quote_def skip_ws_def is_json_ws_def parse_chars_quote)

lemma parse_value_number:
  assumes "closes rest"
  shows "parse_value (Suc n) (show_int i @ rest) = Some (JNum i, rest)"
proof -
  from show_int_first [of i] obtain c t where ct: "show_int i = c # t" "is_digit c \<or> c = CHR ''-''"
    by blast
  from ct(2) have c: "\<not> is_json_ws c" "c \<noteq> CHR 0x22" "c \<noteq> CHR ''[''" "c \<noteq> CHR ''{''"
    "c \<noteq> CHR ''t''" "c \<noteq> CHR ''f''" "c \<noteq> CHR ''n''"
    by (auto simp: is_digit_def is_json_ws_def)
  have "parse_value (Suc n) (c # t @ rest) = parse_number (c # t @ rest)"
    using c by (simp add: skip_ws_def)
  with parse_number_show_int [OF assms, of i] ct(1) show ?thesis by simp
qed

lemma join_elements_Cons:
  "join '','' (stringify_elements (x # xs)) =
     JSON_stringify x @ (if xs = [] then [] else CHR '','' # join '','' (stringify_elements xs))"
  by (cases xs) simp_all

lemma join_members_Cons:
  "join '','' (stringify_members ((k, v) # kvs)) =
     quote k @ CHR '':'' # JSON_stringify v
       @ (if kvs = [] then [] else CHR '','' # join '','' (stringify_members kvs))"
  by (cases kvs) auto

lemma parse_value_array:
  assumes "xs \<noteq> [] \<Longrightarrow>
             parse_elements n (join '','' (stringify_elements xs) @ CHR '']'' # rest) = Some (xs, rest)"
  shows "parse_value (Suc n) (JSON_stringify (JArr xs) @ rest) = Some (JArr xs, rest)"
proof (cases xs)
  case Nil
  then show ?thesis by (simp add: skip_ws_def is_json_ws_def)
next
  case (Cons y ys)
  from opens_stringify [of y] obtain c t where ct: "JSON_stringify y = c # t"
    "\<not> is_json_ws c" "c \<noteq> CHR '']''"
    by (cases "JSON_stringify y") (auto simp: opens_def)
  let ?u = "(if ys = [] then [] else CHR '','' # join '','' (stringify_elements ys)) @ CHR '']'' # rest"
  have body: "join '','' (stringify_elements xs) @ CHR '']'' # rest = c # t @ ?u"
    unfolding Cons join_elements_Cons ct(1) by simp
  have "parse_value (Suc n) (CHR ''['' # c # t @ ?u)
      = map_option (\<lambda>(xs, t). (JArr xs, t)) (parse_elements n (c # t @ ?u))"
    using ct(2,3) by (simp add: skip_ws_def is_json_ws_def)
  with assms body Cons show ?thesis by simp
qed

lemma parse_value_object:
  assumes "kvs \<noteq> [] \<Longrightarrow>
             parse_members n (join '','' (stringify_members kvs) @ CHR ''}'' # rest) = Some (kvs, rest)"
  shows "parse_value (Suc n) (JSON_stringify (JObj kvs) @ rest) = Some (JObj kvs, rest)"
proof (cases kvs)
  case Nil
  then show ?thesis by (simp add: skip_ws_def is_json_ws_def)
next
  case (Cons kv kvs')
  obtain k v where kv: "kv = (k, v)" by (cases kv)
  let ?u = "concat (map escape_char k) @ CHR 0x22 # CHR '':'' # JSON_stringify v
      @ (if kvs' = [] then [] else CHR '','' # join '','' (stringify_members kvs')) @ CHR ''}'' # rest"
  have body: "join '','' (stringify_members kvs) @ CHR ''}'' # rest = CHR 0x22 # ?u"
    unfolding Cons kv join_members_Cons by (simp add: quote_def)
  have "parse_value (Suc n) (CHR ''{'' # CHR 0x22 # ?u)
      = map_option (\<lambda>(kvs, t). (JObj kvs, t)) (parse_members n (CHR 0x22 # ?u))"
    by (simp add: skip_ws_def is_json_ws_def)
  with assms body Cons show ?thesis by simp
qed

lemma parse_elements_step:
  assumes v: "parse_value n (JSON_stringify x @ u) = Some (x, u)"
      and u: "u = (if xs = [] then [] else CHR '','' # join '','' (stringify_elements xs)) @ CHR '']'' # rest"
      and r: "xs \<noteq> [] \<Longrightarrow>
                parse_elements n (join '','' (stringify_elements xs) @ CHR '']'' # rest) = Some (xs, rest)"
  shows "parse_elements (Suc n) (join '','' (stringify_elements (x # xs)) @ CHR '']'' # rest)
           = Some (x # xs, rest)"
proof -
  have t: "join '','' (stringify_elements (x # xs)) @ CHR '']'' # rest = JSON_stringify x @ u"
    unfolding join_elements_Cons u by simp
  show ?thesis
  proof (cases "xs = []")
    case True
    with u have "u = CHR '']'' # rest" by simp
    with v True show ?thesis unfolding t by (simp add: skip_ws_def is_json_ws_def)
  next
    case False
    with u have "u = CHR '','' # join '','' (stringify_elements xs) @ CHR '']'' # rest" by simp
    with v r [OF False] show ?thesis unfolding t by (simp add: skip_ws_def is_json_ws_def)
  qed
qed

lemma parse_members_step:
  assumes v: "parse_value n (JSON_stringify x @ u) = Some (x, u)"
      and u: "u = (if kvs = [] then [] else CHR '','' # join '','' (stringify_members kvs)) @ CHR ''}'' # rest"
      and r: "kvs \<noteq> [] \<Longrightarrow>
                parse_members n (join '','' (stringify_members kvs) @ CHR ''}'' # rest) = Some (kvs, rest)"
  shows "parse_members (Suc n) (join '','' (stringify_members ((k, x) # kvs)) @ CHR ''}'' # rest)
           = Some ((k, x) # kvs, rest)"
proof -
  have t: "join '','' (stringify_members ((k, x) # kvs)) @ CHR ''}'' # rest
      = CHR 0x22 # concat (map escape_char k) @ CHR 0x22 # CHR '':'' # JSON_stringify x @ u"
    unfolding join_members_Cons u by (simp add: quote_def)
  show ?thesis
  proof (cases "kvs = []")
    case True
    with u have "u = CHR ''}'' # rest" by simp
    with v True show ?thesis unfolding t
      by (simp add: skip_ws_def is_json_ws_def parse_chars_quote)
  next
    case False
    with u have "u = CHR '','' # join '','' (stringify_members kvs) @ CHR ''}'' # rest" by simp
    with v r [OF False] show ?thesis unfolding t
      by (simp add: skip_ws_def is_json_ws_def parse_chars_quote)
  qed
qed

lemma closes_tail:
  "closes ((if xs = [] then [] else CHR '','' # t) @ CHR '']'' # rest)"
  "closes ((if xs = [] then [] else CHR '','' # t) @ CHR ''}'' # rest)"
  by (simp_all add: closes_def)

lemma parse_stringify:
  "(\<forall>n rest. closes rest \<longrightarrow> depth x \<le> n \<longrightarrow>
       parse_value n (JSON_stringify x @ rest) = Some (x, rest))"
  "(\<forall>n rest. xs \<noteq> [] \<longrightarrow> depth_elements xs \<le> n \<longrightarrow>
       parse_elements n (join '','' (stringify_elements xs) @ CHR '']'' # rest) = Some (xs, rest))"
  "(\<forall>n rest. kvs \<noteq> [] \<longrightarrow> depth_members kvs \<le> n \<longrightarrow>
       parse_members n (join '','' (stringify_members kvs) @ CHR ''}'' # rest) = Some (kvs, rest))"
proof (induction x and xs and kvs rule: JSON_stringify_stringify_elements_stringify_members.induct)
  case 1
  show ?case
  proof (intro allI impI)
    fix n rest assume "depth JNull \<le> n"
    then obtain m where "n = Suc m" by (cases n) auto
    then show "parse_value n (JSON_stringify JNull @ rest) = Some (JNull, rest)"
      using parse_value_null by simp
  qed
next
  case (2 b)
  show ?case
  proof (intro allI impI)
    fix n rest assume "depth (JBool b) \<le> n"
    then obtain m where "n = Suc m" by (cases n) auto
    then show "parse_value n (JSON_stringify (JBool b) @ rest) = Some (JBool b, rest)"
      using parse_value_true parse_value_false by (cases b) simp_all
  qed
next
  case (3 i)
  show ?case
  proof (intro allI impI)
    fix n rest assume c: "closes rest" and "depth (JNum i) \<le> n"
    then obtain m where "n = Suc m" by (cases n) auto
    then show "parse_value n (JSON_stringify (JNum i) @ rest) = Some (JNum i, rest)"
      using parse_value_number [OF c] by simp
  qed
next
  case (4 s)
  show ?case
  proof (intro allI impI)
    fix n rest assume "depth (JStr s) \<le> n"
    then obtain m where "n = Suc m" by (cases n) auto
    then show "parse_value n (JSON_stringify (JStr s) @ rest) = Some (JStr s, rest)"
      using parse_value_string by simp
  qed
next
  case (5 xs)
  show ?case
  proof (intro allI impI)
    fix n rest assume "depth (JArr xs) \<le> n"
    then obtain m where m: "n = Suc m" "depth_elements xs \<le> m" by (cases n) auto
    with 5 have "xs \<noteq> [] \<Longrightarrow>
        parse_elements m (join '','' (stringify_elements xs) @ CHR '']'' # rest) = Some (xs, rest)"
      by simp
    from parse_value_array [OF this] m(1)
    show "parse_value n (JSON_stringify (JArr xs) @ rest) = Some (JArr xs, rest)" by simp
  qed
next
  case (6 kvs)
  show ?case
  proof (intro allI impI)
    fix n rest assume "depth (JObj kvs) \<le> n"
    then obtain m where m: "n = Suc m" "depth_members kvs \<le> m" by (cases n) auto
    with 6 have "kvs \<noteq> [] \<Longrightarrow>
        parse_members m (join '','' (stringify_members kvs) @ CHR ''}'' # rest) = Some (kvs, rest)"
      by simp
    from parse_value_object [OF this] m(1)
    show "parse_value n (JSON_stringify (JObj kvs) @ rest) = Some (JObj kvs, rest)" by simp
  qed
next
  case 7
  show ?case by simp
next
  case (8 x xs)
  show ?case
  proof (intro allI impI)
    fix n rest assume "depth_elements (x # xs) \<le> n"
    then obtain m where m: "n = Suc m" "depth x \<le> m" "depth_elements xs \<le> m" by (cases n) auto
    let ?u = "(if xs = [] then [] else CHR '','' # join '','' (stringify_elements xs)) @ CHR '']'' # rest"
    from "8.IH"(1) m(2) closes_tail(1) have v: "parse_value m (JSON_stringify x @ ?u) = Some (x, ?u)"
      by blast
    from "8.IH"(2) m(3) have r: "xs \<noteq> [] \<Longrightarrow>
        parse_elements m (join '','' (stringify_elements xs) @ CHR '']'' # rest) = Some (xs, rest)"
      by blast
    from parse_elements_step [OF v refl r] m(1)
    show "parse_elements n (join '','' (stringify_elements (x # xs)) @ CHR '']'' # rest)
        = Some (x # xs, rest)" by simp
  qed
next
  case 9
  show ?case by simp
next
  case (10 k v kvs)
  show ?case
  proof (intro allI impI)
    fix n rest assume "depth_members ((k, v) # kvs) \<le> n"
    then obtain m where m: "n = Suc m" "depth v \<le> m" "depth_members kvs \<le> m" by (cases n) auto
    let ?u = "(if kvs = [] then [] else CHR '','' # join '','' (stringify_members kvs)) @ CHR ''}'' # rest"
    from "10.IH"(1) m(2) closes_tail(2) have v: "parse_value m (JSON_stringify v @ ?u) = Some (v, ?u)"
      by blast
    from "10.IH"(2) m(3) have r: "kvs \<noteq> [] \<Longrightarrow>
        parse_members m (join '','' (stringify_members kvs) @ CHR ''}'' # rest) = Some (kvs, rest)"
      by blast
    from parse_members_step [OF v refl r] m(1)
    show "parse_members n (join '','' (stringify_members ((k, v) # kvs)) @ CHR ''}'' # rest)
        = Some ((k, v) # kvs, rest)" by simp
  qed
qed

lemma quote_length: "2 \<le> length (quote s)"
  by (simp add: quote_def)

lemma stringify_length:
  "depth x \<le> length (JSON_stringify x)"
  "depth_elements xs \<le> length (join '','' (stringify_elements xs)) + 1"
  "depth_members kvs \<le> length (join '','' (stringify_members kvs)) + 1"
proof (induction x and xs and kvs rule: JSON_stringify_stringify_elements_stringify_members.induct)
  case (3 i)
  from show_int_first [of i] show ?case by auto
next
  case (4 s)
  from quote_length [of s] show ?case by simp
next
  case (8 x xs)
  then show ?case unfolding join_elements_Cons by auto
next
  case (10 k v kvs)
  then show ?case unfolding join_members_Cons by auto
qed simp_all

theorem JSON_parse_stringify: "JSON_parse (JSON_stringify x) = Some x"
proof -
  have "closes []" by (simp add: closes_def)
  moreover from stringify_length(1) [of x]
  have "depth x \<le> 2 * length (JSON_stringify x) + 1" by simp
  ultimately have "parse_value (2 * length (JSON_stringify x) + 1) (JSON_stringify x @ []) = Some (x, [])"
    using parse_stringify(1) [of x] by blast
  then show ?thesis by (simp add: JSON_parse_def skip_ws_def)
qed

lemma parse_chars_shorter: "parse_chars s = Some (str, r) \<Longrightarrow> length r < length s"
proof (induction s arbitrary: str rule: length_induct)
  case (1 s)
  have IH: "length r < length ys" if "length ys < length s" "parse_chars ys = Some (str', r)"
    for ys str'
    using "1.IH" that by blast
  from "1.prems" obtain c r0 where s: "s = c # r0" by (cases s) auto
  show ?case
  proof (cases "c = CHR 0x22")
    case True
    with "1.prems" s show ?thesis by simp
  next
    case nq: False
    show ?thesis
    proof (cases "c = CHR 0x5C")
      case False
      with nq "1.prems" s obtain str' where "parse_chars r0 = Some (str', r)"
        by (auto split: if_splits)
      from IH [OF _ this] s show ?thesis by simp
    next
      case bs: True
      with nq "1.prems" s obtain e r1 where r0: "r0 = e # r1" by (cases r0) auto
      show ?thesis
      proof (cases "e = CHR ''u''")
        case True
        with nq bs r0 "1.prems" s obtain h1 h2 h3 h4 r2 str'
          where r1: "r1 = h1 # h2 # h3 # h4 # r2" and p: "parse_chars r2 = Some (str', r)"
          by (auto split: list.splits option.splits)
        from IH [OF _ p] s r0 r1 show ?thesis by simp
      next
        case False
        with nq bs r0 "1.prems" s obtain str' where p: "parse_chars r1 = Some (str', r)"
          by (auto split: option.splits)
        from IH [OF _ p] s r0 show ?thesis by simp
      qed
    qed
  qed
qed

lemma parse_number_shorter: "parse_number s = Some (v, r) \<Longrightarrow> length r < length s"
proof -
  assume a: "parse_number s = Some (v, r)"
  let ?neg = "(case s of [] \<Rightarrow> False | c # _ \<Rightarrow> c = CHR ''-'')"
  let ?r = "(if ?neg then drop 1 s else s)"
  from a have ne: "takeWhile is_digit ?r \<noteq> []" and r: "r = dropWhile is_digit ?r"
    by (auto simp: parse_number_def Let_def split: if_splits)
  have "length ?r = length (takeWhile is_digit ?r) + length (dropWhile is_digit ?r)"
    by (metis length_append takeWhile_dropWhile_id)
  with ne r have "length r < length ?r" by simp
  moreover have "length ?r \<le> length s" by simp
  ultimately show ?thesis by simp
qed

lemma skip_ws_length: "length (skip_ws s) \<le> length s"
  by (simp add: skip_ws_def length_dropWhile_le)

lemma skip_ws_Cons: "skip_ws s = c # r \<Longrightarrow> length r < length s"
  using skip_ws_length [of s] by simp

lemma parse_value_Suc_shorter:
  assumes E0: "\<forall>s vs r. parse_elements n s = Some (vs, r) \<longrightarrow> length r < length s"
      and M0: "\<forall>s kvs r. parse_members n s = Some (kvs, r) \<longrightarrow> length r < length s"
      and p: "parse_value (Suc n) s = Some (v, r)"
  shows "length r < length s"
proof -
  from E0 have E: "\<And>s vs r. parse_elements n s = Some (vs, r) \<Longrightarrow> length r < length s"
    by blast
  from M0 have M: "\<And>s kvs r. parse_members n s = Some (kvs, r) \<Longrightarrow> length r < length s"
    by blast
  from p obtain c r0 where sk: "skip_ws s = c # r0" by (cases "skip_ws s") auto
  note l0 = skip_ws_Cons [OF sk]
  consider (str) "c = CHR 0x22" | (arr) "c = CHR ''[''" | (obj) "c = CHR ''{''"
    | (other) "c \<noteq> CHR 0x22" "c \<noteq> CHR ''[''" "c \<noteq> CHR ''{''" by blast
  then show ?thesis
  proof cases
    case str
    with p sk obtain str' where "parse_chars r0 = Some (str', r)" by auto
    from parse_chars_shorter [OF this] l0 show ?thesis by simp
  next
    case arr
    with p sk obtain c' r' where sk': "skip_ws r0 = c' # r'" by (cases "skip_ws r0") auto
    note l1 = skip_ws_Cons [OF sk']
    show ?thesis
    proof (cases "c' = CHR '']''")
      case True
      with p sk arr sk' have "r = r'" by simp
      with l0 l1 show ?thesis by simp
    next
      case False
      with p sk arr sk' obtain xs where "parse_elements n (c' # r') = Some (xs, r)" by auto
      from E [OF this] l0 l1 show ?thesis by simp
    qed
  next
    case obj
    with p sk obtain c' r' where sk': "skip_ws r0 = c' # r'" by (cases "skip_ws r0") auto
    note l1 = skip_ws_Cons [OF sk']
    show ?thesis
    proof (cases "c' = CHR ''}''")
      case True
      with p sk obj sk' have "r = r'" by simp
      with l0 l1 show ?thesis by simp
    next
      case False
      with p sk obj sk' obtain kvs where "parse_members n (c' # r') = Some (kvs, r)" by auto
      from M [OF this] l0 l1 show ?thesis by simp
    qed
  next
    case other
    with p sk have d: "r = drop 4 (c # r0) \<or> r = drop 5 (c # r0) \<or> parse_number (c # r0) = Some (v, r)"
      by (auto split: if_splits)
    then have "length r < length (c # r0)"
      using parse_number_shorter [of "c # r0" v r] by auto
    with l0 show ?thesis by simp
  qed
qed

lemma parse_elements_Suc_shorter:
  assumes V0: "\<forall>s v r. parse_value n s = Some (v, r) \<longrightarrow> length r < length s"
      and E0: "\<forall>s vs r. parse_elements n s = Some (vs, r) \<longrightarrow> length r < length s"
      and p: "parse_elements (Suc n) s = Some (vs, r)"
  shows "length r < length s"
proof -
  from V0 have V: "\<And>s v r. parse_value n s = Some (v, r) \<Longrightarrow> length r < length s"
    by blast
  from E0 have E: "\<And>s vs r. parse_elements n s = Some (vs, r) \<Longrightarrow> length r < length s"
    by blast
  from p obtain v r1 where v: "parse_value n s = Some (v, r1)"
    by (cases "parse_value n s") auto
  with p obtain c r2 where sk: "skip_ws r1 = c # r2" by (cases "skip_ws r1") auto
  from V [OF v] skip_ws_Cons [OF sk] have l: "length r2 < length s" by simp
  show ?thesis
  proof (cases "c = CHR '',''")
    case True
    with p v sk obtain vs' where "parse_elements n r2 = Some (vs', r)" by auto
    from E [OF this] l show ?thesis by simp
  next
    case False
    with p v sk have "r = r2" by (auto split: if_splits)
    with l show ?thesis by simp
  qed
qed

lemma parse_members_Suc_shorter:
  assumes V0: "\<forall>s v r. parse_value n s = Some (v, r) \<longrightarrow> length r < length s"
      and M0: "\<forall>s kvs r. parse_members n s = Some (kvs, r) \<longrightarrow> length r < length s"
      and p: "parse_members (Suc n) s = Some (kvs, r)"
  shows "length r < length s"
proof -
  from V0 have V: "\<And>s v r. parse_value n s = Some (v, r) \<Longrightarrow> length r < length s"
    by blast
  from M0 have M: "\<And>s kvs r. parse_members n s = Some (kvs, r) \<Longrightarrow> length r < length s"
    by blast
  from p obtain c r0 where sk: "skip_ws s = c # r0" by (cases "skip_ws s") auto
  with p have c: "c = CHR 0x22" by (auto split: if_splits)
  with p sk obtain k r1 where k: "parse_chars r0 = Some (k, r1)"
    by (cases "parse_chars r0") auto
  with p sk c obtain c1 r2 where sk1: "skip_ws r1 = c1 # r2" by (cases "skip_ws r1") auto
  with p sk c k have c1: "c1 = CHR '':''" by (auto split: if_splits)
  with p sk c k sk1 obtain v r3 where v: "parse_value n r2 = Some (v, r3)"
    by (cases "parse_value n r2") auto
  with p sk c k sk1 c1 obtain c3 r4 where sk3: "skip_ws r3 = c3 # r4" by (cases "skip_ws r3") auto
  from skip_ws_Cons [OF sk] parse_chars_shorter [OF k] skip_ws_Cons [OF sk1] V [OF v]
    skip_ws_Cons [OF sk3]
  have l: "length r4 < length s" by simp
  show ?thesis
  proof (cases "c3 = CHR '',''")
    case True
    with p sk c k sk1 c1 v sk3 obtain kvs' where "parse_members n r4 = Some (kvs', r)" by auto
    from M [OF this] l show ?thesis by simp
  next
    case False
    with p sk c k sk1 c1 v sk3 have "r = r4" by (auto split: if_splits)
    with l show ?thesis by simp
  qed
qed

lemma parse_shorter:
  "(\<forall>s v r. parse_value n s = Some (v, r) \<longrightarrow> length r < length s)
   \<and> (\<forall>s vs r. parse_elements n s = Some (vs, r) \<longrightarrow> length r < length s)
   \<and> (\<forall>s kvs r. parse_members n s = Some (kvs, r) \<longrightarrow> length r < length s)"
proof (induction n)
  case 0
  show ?case by simp
next
  case (Suc n)
  then have V: "\<forall>s v r. parse_value n s = Some (v, r) \<longrightarrow> length r < length s"
    and E: "\<forall>s vs r. parse_elements n s = Some (vs, r) \<longrightarrow> length r < length s"
    and M: "\<forall>s kvs r. parse_members n s = Some (kvs, r) \<longrightarrow> length r < length s"
    by simp_all
  show ?case
    using parse_value_Suc_shorter [OF E M] parse_elements_Suc_shorter [OF V E]
      parse_members_Suc_shorter [OF V M]
    by blast
qed

lemma parse_value_shorter: "parse_value n s = Some (v, r) \<Longrightarrow> length r < length s"
  using parse_shorter [of n] by blast

lemma parse_value_Suc_fuel:
  assumes E: "\<forall>s m. 2 * length s + 1 \<le> n \<and> 2 * length s + 1 \<le> m \<longrightarrow>
                parse_elements n s = parse_elements m s"
      and M: "\<forall>s m. 2 * length s + 1 \<le> n \<and> 2 * length s + 1 \<le> m \<longrightarrow>
                parse_members n s = parse_members m s"
      and b: "2 * length s \<le> Suc n" "2 * length s \<le> Suc m"
  shows "parse_value (Suc n) s = parse_value (Suc m) s"
proof (cases "skip_ws s")
  case Nil
  then show ?thesis by simp
next
  case (Cons c r0)
  note l0 = skip_ws_Cons [OF Cons]
  show ?thesis
  proof (cases "skip_ws r0")
    case Nil
    with Cons show ?thesis by simp
  next
    case inner: (Cons c' r')
    note l1 = skip_ws_Cons [OF inner]
    from l0 l1 b have "2 * length (c' # r') + 1 \<le> n \<and> 2 * length (c' # r') + 1 \<le> m"
      by simp
    with E M have "parse_elements n (c' # r') = parse_elements m (c' # r')"
      "parse_members n (c' # r') = parse_members m (c' # r')"
      by blast+
    with Cons inner show ?thesis by simp
  qed
qed

lemma parse_elements_Suc_fuel:
  assumes V: "\<forall>s m. 2 * length s \<le> n \<and> 2 * length s \<le> m \<longrightarrow> parse_value n s = parse_value m s"
      and E: "\<forall>s m. 2 * length s + 1 \<le> n \<and> 2 * length s + 1 \<le> m \<longrightarrow>
                parse_elements n s = parse_elements m s"
      and b: "2 * length s + 1 \<le> Suc n" "2 * length s + 1 \<le> Suc m"
  shows "parse_elements (Suc n) s = parse_elements (Suc m) s"
proof -
  from b have "2 * length s \<le> n \<and> 2 * length s \<le> m" by simp
  with V have pv: "parse_value n s = parse_value m s" by blast
  show ?thesis
  proof (cases "parse_value m s")
    case None
    with pv show ?thesis by simp
  next
    case (Some vr)
    obtain v r1 where vr: "vr = (v, r1)" by (cases vr)
    from Some vr have l1: "length r1 < length s" by (auto dest: parse_value_shorter)
    show ?thesis
    proof (cases "skip_ws r1")
      case Nil
      with pv Some vr show ?thesis by simp
    next
      case (Cons c r2)
      from skip_ws_Cons [OF Cons] l1 b
      have "2 * length r2 + 1 \<le> n \<and> 2 * length r2 + 1 \<le> m" by simp
      with E have "parse_elements n r2 = parse_elements m r2" by blast
      with pv Some vr Cons show ?thesis by simp
    qed
  qed
qed

lemma parse_members_Suc_fuel:
  assumes V: "\<forall>s m. 2 * length s \<le> n \<and> 2 * length s \<le> m \<longrightarrow> parse_value n s = parse_value m s"
      and M: "\<forall>s m. 2 * length s + 1 \<le> n \<and> 2 * length s + 1 \<le> m \<longrightarrow>
                parse_members n s = parse_members m s"
      and b: "2 * length s + 1 \<le> Suc n" "2 * length s + 1 \<le> Suc m"
  shows "parse_members (Suc n) s = parse_members (Suc m) s"
proof (cases "skip_ws s")
  case Nil
  then show ?thesis by simp
next
  case (Cons c r0)
  note l0 = skip_ws_Cons [OF Cons]
  show ?thesis
  proof (cases "parse_chars r0")
    case None
    with Cons show ?thesis by simp
  next
    case (Some kr)
    obtain k r1 where kr: "kr = (k, r1)" by (cases kr)
    from Some kr have l1: "length r1 < length r0" by (auto dest: parse_chars_shorter)
    show ?thesis
    proof (cases "skip_ws r1")
      case Nil
      with Cons Some kr show ?thesis by simp
    next
      case colon: (Cons c1 r2)
      note l2 = skip_ws_Cons [OF colon]
      from l0 l1 l2 b have "2 * length r2 \<le> n \<and> 2 * length r2 \<le> m" by simp
      with V have pv: "parse_value n r2 = parse_value m r2" by blast
      show ?thesis
      proof (cases "parse_value m r2")
        case None
        with pv Cons Some kr colon show ?thesis by simp
      next
        case val: (Some vr)
        obtain v r3 where vr: "vr = (v, r3)" by (cases vr)
        from val vr have l3: "length r3 < length r2" by (auto dest: parse_value_shorter)
        show ?thesis
        proof (cases "skip_ws r3")
          case Nil
          with pv Cons Some kr colon val vr show ?thesis by simp
        next
          case sep: (Cons c3 r4)
          from skip_ws_Cons [OF sep] l0 l1 l2 l3 b
          have "2 * length r4 + 1 \<le> n \<and> 2 * length r4 + 1 \<le> m" by simp
          with M have "parse_members n r4 = parse_members m r4" by blast
          with pv Cons Some kr colon val vr sep show ?thesis by simp
        qed
      qed
    qed
  qed
qed

lemma parse_fuel:
  "(\<forall>s m. 2 * length s \<le> n \<and> 2 * length s \<le> m \<longrightarrow> parse_value n s = parse_value m s)
   \<and> (\<forall>s m. 2 * length s + 1 \<le> n \<and> 2 * length s + 1 \<le> m \<longrightarrow>
         parse_elements n s = parse_elements m s)
   \<and> (\<forall>s m. 2 * length s + 1 \<le> n \<and> 2 * length s + 1 \<le> m \<longrightarrow>
         parse_members n s = parse_members m s)"
proof (induction n)
  case 0
  have "parse_value 0 s = parse_value m s" if "2 * length s \<le> 0" for s m
  proof -
    from that have "s = []" by simp
    then show ?thesis by (cases m) (simp_all add: skip_ws_def)
  qed
  then show ?case by simp
next
  case (Suc n)
  then have V: "\<forall>s m. 2 * length s \<le> n \<and> 2 * length s \<le> m \<longrightarrow> parse_value n s = parse_value m s"
    and E: "\<forall>s m. 2 * length s + 1 \<le> n \<and> 2 * length s + 1 \<le> m \<longrightarrow>
              parse_elements n s = parse_elements m s"
    and M: "\<forall>s m. 2 * length s + 1 \<le> n \<and> 2 * length s + 1 \<le> m \<longrightarrow>
              parse_members n s = parse_members m s"
    by simp_all
  have v: "parse_value (Suc n) s = parse_value m s"
    if "2 * length s \<le> Suc n" "2 * length s \<le> m" for s m
  proof (cases m)
    case 0
    with that have "s = []" by simp
    with 0 show ?thesis by (simp add: skip_ws_def)
  next
    case (Suc m')
    with that parse_value_Suc_fuel [OF E M, of s m'] show ?thesis by simp
  qed
  have e: "parse_elements (Suc n) s = parse_elements m s"
    if "2 * length s + 1 \<le> Suc n" "2 * length s + 1 \<le> m" for s m
  proof -
    from that obtain m' where "m = Suc m'" by (cases m) auto
    with that parse_elements_Suc_fuel [OF V E, of s m'] show ?thesis by simp
  qed
  have m: "parse_members (Suc n) s = parse_members m s"
    if "2 * length s + 1 \<le> Suc n" "2 * length s + 1 \<le> m" for s m
  proof -
    from that obtain m' where "m = Suc m'" by (cases m) auto
    with that parse_members_Suc_fuel [OF V M, of s m'] show ?thesis by simp
  qed
  from v e m show ?case by blast
qed

theorem JSON_parse_fuel:
  assumes "2 * length s + 1 \<le> n"
  shows "parse_value n s = parse_value (2 * length s + 1) s"
proof -
  from parse_fuel [of n]
  have V: "\<And>s m. 2 * length s \<le> n \<Longrightarrow> 2 * length s \<le> m \<Longrightarrow> parse_value n s = parse_value m s"
    by blast
  show ?thesis by (rule V) (use assms in simp_all)
qed

subsection \<open>The claims\<close>

text \<open>
  C7.  For every response text and every configured (non-empty) API key the
  specialty picker returns, without an error, a member of the four practice
  areas: the trimmed text when that is one of the four, and
  \<open>''Community Pharmacy''\<close> otherwise.  The variant of the unnamed file does
  the same.
\<close>

theorem pickPharmacyAreaForCase_enum:
  "\<exists>a. pickPharmacyAreaForCase (Some (k # ks)) (Inr text) = Inr a
       \<and> pickPharmacyAreaForCase_unnamed (Inr text) = Inr a
       \<and> a \<in> set validSpecialties
       \<and> a = (if trim text \<in> set validSpecialties then trim text else ''Community Pharmacy'')"
  by (simp add: pickPharmacyAreaForCase_def pickPharmacyAreaForCase_unnamed_def getAi_def
      Let_def validSpecialties_def)

theorem pickPharmacyAreaForCase_enum_witness:
  "pickPharmacyAreaForCase (Some ''key'') (Inr '' Hospital Pharmacy\<newline>'') = Inr ''Hospital Pharmacy''
   \<and> pickPharmacyAreaForCase (Some ''key'') (Inr ''I would pick Hospital Pharmacy.'')
       = Inr ''Community Pharmacy''"
  using pickPharmacyAreaForCase_enum [of "CHR ''k''" "''ey''" "'' Hospital Pharmacy\<newline>''"]
    pickPharmacyAreaForCase_enum [of "CHR ''k''" "''ey''" "''I would pick Hospital Pharmacy.''"]
  by (simp add: trim_def is_js_space_def validSpecialties_def)

lemma markNotificationAsRead_nonneg:
  "0 \<le> unreadCount st \<Longrightarrow> 0 \<le> unreadCount (markNotificationAsRead st n ok)"
  by (simp add: markNotificationAsRead_def Let_def split: option.splits)

lemma markMany_nonneg: "0 \<le> unreadCount st \<Longrightarrow> 0 \<le> unreadCount (markMany st calls)"
proof (induction calls arbitrary: st)
  case Nil
  then show ?case by simp
next
  case (Cons call calls)
  obtain n ok where call: "call = (n, ok)" by (cases call)
  from Cons.prems have "0 \<le> unreadCount (markNotificationAsRead st n ok)"
    by (rule markNotificationAsRead_nonneg)
  then show ?case unfolding call by (simp add: Cons.IH)
qed

text \<open>
  C10.  Starting from a counter that is not negative, any sequence of
  \<^verbatim>\<open>markNotificationAsRead\<close> calls, whatever the notification ids and the outcomes
  of the remote writes, leaves \<open>unreadCount\<close> at least 0; a successful call of a
  signed-in user sets it to \<open>max 0 (n - 1)\<close>; a call whose remote write fails
  leaves the whole state as it was before the call.
\<close>

theorem markNotificationAsRead_counter:
  assumes "0 \<le> unreadCount st"
  shows "0 \<le> unreadCount (markMany st calls)
     \<and> unreadCount (markNotificationAsRead (st\<lparr>session_user := Some u\<rparr>) n True)
         = max 0 (unreadCount st - 1)
     \<and> markNotificationAsRead st n False = st"
proof -
  have "0 \<le> unreadCount (markMany st calls)"
    using assms by (rule markMany_nonneg)
  moreover have "unreadCount (markNotificationAsRead (st\<lparr>session_user := Some u\<rparr>) n True)
      = max 0 (unreadCount st - 1)"
    by (simp add: markNotificationAsRead_def Let_def)
  moreover have "markNotificationAsRead st n False = st"
    by (simp add: markNotificationAsRead_def Let_def split: option.splits)
  ultimately show ?thesis by simp
qed

theorem markNotificationAsRead_counter_witness:
  "unreadCount (markMany \<lparr>session_user = Some ''u1'',
       notifications = [\<lparr>n_id = 7, n_title = ''t'', n_message = ''m'', is_read = False\<rparr>],
       unreadCount = 1\<rparr> [(7, True), (7, True), (8, False)]) = 0"
  using markNotificationAsRead_counter [of "\<lparr>session_user = Some ''u1'',
       notifications = [\<lparr>n_id = 7, n_title = ''t'', n_message = ''m'', is_read = False\<rparr>],
       unreadCount = 1\<rparr>" "[(7, True), (7, True), (8, False)]"]
  by (simp add: markNotificationAsRead_def Let_def)

lemma find_of_filter_single: "filter P xs = [d] \<Longrightarrow> find P xs = Some d"
  by (induction xs) (auto split: if_splits)

text \<open>
  C8.  For a case whose drug-related problems hold exactly one entry \<open>d\<close> with
  \<open>isCorrect\<close>, finishing the case with a selected string stores a simulation
  result whose \<open>problemCorrect\<close> is true if and only if the selected string
  equals \<open>problem d\<close>, and whose \<open>selectedProblem\<close> is the selected string.
\<close>

theorem handleFinishCase_problemCorrect:
  assumes "currentCase st = Some c"
      and "filter isCorrect (drugRelatedProblems c) = [d]"
  shows "\<exists>r. simulationResult (handleFinishCase st now selected) = Some r
           \<and> (problemCorrect r \<longleftrightarrow> selected = problem d)
           \<and> selectedProblem r = selected"
  using find_of_filter_single [OF assms(2)] assms(1)
  by (auto simp: handleFinishCase_def Let_def)

theorem handleFinishCase_problemCorrect_witness:
  "currentCase example_state = Some example_case
   \<and> filter isCorrect (drugRelatedProblems example_case) = [\<lparr>problem = ''B'', isCorrect = True\<rparr>]
   \<and> map_option problemCorrect (simulationResult (handleFinishCase example_state 61500 ''B''))
        = Some True
   \<and> map_option problemCorrect (simulationResult (handleFinishCase example_state 61500 ''A''))
        = Some False"
proof -
  have c: "currentCase example_state = Some example_case"
    by (simp add: example_state_def)
  have f: "filter isCorrect (drugRelatedProblems example_case) = [\<lparr>problem = ''B'', isCorrect = True\<rparr>]"
    by (simp add: example_case_def)
  from handleFinishCase_problemCorrect [OF c f, of 61500 "''B''"]
    handleFinishCase_problemCorrect [OF c f, of 61500 "''A''"] c f
  show ?thesis by auto
qed

lemma investigation_names_literal:
  "testName \<in> set investigation_names \<Longrightarrow> \<not> (\<exists>c \<in> set testName. c \<in> set regex_syntax_chars)"
  unfolding investigation_names_def ALL_INVESTIGATIONS_def regex_syntax_chars_def
  by auto

lemma match_literal_ci_Some:
  "match_literal_ci n s = Some r \<Longrightarrow> \<exists>mid. s = mid @ r \<and> map canonicalize mid = map canonicalize n"
proof (induction n s rule: match_literal_ci.induct)
  case (1 s)
  then show ?case by simp
next
  case (2 p ps)
  then show ?case by simp
next
  case (3 p ps c cs)
  from "3.prems" have eq: "canonicalize p = canonicalize c" and m: "match_literal_ci ps cs = Some r"
    by (auto split: if_splits)
  from "3.IH" [OF eq m] obtain mid where "cs = mid @ r" "map canonicalize mid = map canonicalize ps"
    by blast
  with eq have "c # cs = (c # mid) @ r \<and> map canonicalize (c # mid) = map canonicalize (p # ps)"
    by simp
  then show ?case by blast
qed

lemma lab_regex_at_Some:
  assumes "lab_regex_at n s = Some cap"
  shows "\<exists>mid ws rest. s = mid @ ws @ CHR '':'' # rest
            \<and> map canonicalize mid = map canonicalize n \<and> (\<forall>c \<in> set ws. is_js_space c)"
proof -
  from assms obtain r where r: "match_literal_ci n s = Some r"
    by (auto simp: lab_regex_at_def split: option.splits)
  with assms obtain r' where d: "dropWhile is_js_space r = CHR '':'' # r'"
    by (auto simp: lab_regex_at_def split: option.splits list.splits if_splits)
  from match_literal_ci_Some [OF r] obtain mid
    where mid: "s = mid @ r" "map canonicalize mid = map canonicalize n" by blast
  have "r = takeWhile is_js_space r @ dropWhile is_js_space r" by simp
  with d have "r = takeWhile is_js_space r @ CHR '':'' # r'" by simp
  with mid have "s = mid @ takeWhile is_js_space r @ CHR '':'' # r'" by simp
  moreover have "\<forall>c \<in> set (takeWhile is_js_space r). is_js_space c"
    by (auto dest: set_takeWhileD)
  ultimately show ?thesis using mid(2) by blast
qed

lemma lab_regex_exec_Some:
  "lab_regex_exec n s = Some cap \<Longrightarrow>
     \<exists>pre mid ws rest. s = pre @ mid @ ws @ CHR '':'' # rest
        \<and> map canonicalize mid = map canonicalize n \<and> (\<forall>c \<in> set ws. is_js_space c)"
proof (induction s)
  case Nil
  then have "lab_regex_at n [] = Some cap" by simp
  from lab_regex_at_Some [OF this] show ?case by (metis append_Nil)
next
  case (Cons c cs)
  show ?case
  proof (cases "lab_regex_at n (c # cs)")
    case (Some cap')
    from lab_regex_at_Some [OF this] show ?thesis by (metis append_Nil)
  next
    case None
    with Cons.prems have "lab_regex_exec n cs = Some cap" by simp
    from Cons.IH [OF this] obtain pre mid ws rest where
      "cs = pre @ mid @ ws @ CHR '':'' # rest" "map canonicalize mid = map canonicalize n"
      "\<forall>c \<in> set ws. is_js_space c" by blast
    then have "c # cs = (c # pre) @ mid @ ws @ CHR '':'' # rest
        \<and> map canonicalize mid = map canonicalize n \<and> (\<forall>c \<in> set ws. is_js_space c)" by simp
    then show ?thesis by blast
  qed
qed


lemma match_literal_ci_complete:
  "map canonicalize mid = map canonicalize n \<Longrightarrow> match_literal_ci n (mid @ r) = Some r"
proof (induction n arbitrary: mid)
  case Nil
  then show ?case by simp
next
  case (Cons p ps)
  then obtain c cs where mid: "mid = c # cs" by (cases mid) auto
  with Cons.prems have "canonicalize p = canonicalize c" "map canonicalize cs = map canonicalize ps"
    by auto
  with Cons.IH [of cs] show ?case unfolding mid by simp
qed

lemma dropWhile_spaces_colon:
  "\<forall>c \<in> set ws. is_js_space c \<Longrightarrow> dropWhile is_js_space (ws @ CHR '':'' # rest) = CHR '':'' # rest"
  by (induction ws) (auto simp: is_js_space_def)

lemma lab_regex_at_complete:
  assumes "map canonicalize mid = map canonicalize n" "\<forall>c \<in> set ws. is_js_space c"
  shows "lab_regex_at n (mid @ ws @ CHR '':'' # rest) \<noteq> None"
  using match_literal_ci_complete [OF assms(1)] dropWhile_spaces_colon [OF assms(2)]
  by (simp add: lab_regex_at_def)

lemma lab_regex_exec_complete:
  assumes "map canonicalize mid = map canonicalize n" "\<forall>c \<in> set ws. is_js_space c"
  shows "lab_regex_exec n (pre @ mid @ ws @ CHR '':'' # rest) \<noteq> None"
proof (induction pre)
  case Nil
  from lab_regex_at_complete [OF assms, of rest] show ?case
    by (cases "mid @ ws @ CHR '':'' # rest") (auto split: option.splits)
next
  case (Cons c pre)
  then show ?case by (auto split: option.splits)
qed


text \<open>
  C5.  For every test name of the investigation catalog and every lab-results
  string, \<^verbatim>\<open>parseComplexLabResult\<close> returns a result (the pattern built from the
  name is a literal, and nothing else can throw).  When the string holds no
  occurrence of the name, compared without regard to case, that is followed
  by optional white space and a colon, the result is the simple value
  "Result not available in this case.".
\<close>

theorem parseComplexLabResult_total:
  assumes "testName \<in> set investigation_names"
  shows "\<exists>r. parseComplexLabResult testName fullLabString = Inr r
     \<and> ((\<nexists>pre mid ws rest. fullLabString = pre @ mid @ ws @ CHR '':'' # rest
            \<and> map canonicalize mid = map canonicalize testName \<and> (\<forall>c \<in> set ws. is_js_space c))
          \<longrightarrow> r = Simple ''Result not available in this case.'')"
proof -
  have lit: "\<not> (\<exists>c \<in> set testName. c \<in> set regex_syntax_chars)"
    using assms by (rule investigation_names_literal)
  show ?thesis
  proof (cases "lab_regex_exec testName fullLabString")
    case None
    with lit show ?thesis
      by (simp add: parseComplexLabResult_def Let_def not_available_def)
  next
    case (Some cap)
    from lab_regex_exec_Some [OF this] have ex: "\<exists>pre mid ws rest. fullLabString = pre @ mid @ ws @ CHR '':'' # rest
        \<and> map canonicalize mid = map canonicalize testName \<and> (\<forall>c \<in> set ws. is_js_space c)" .
    from lit have "\<exists>r. parseComplexLabResult testName fullLabString = Inr r"
      by (simp add: parseComplexLabResult_def Let_def)
    with ex show ?thesis by blast
  qed
qed

theorem parseComplexLabResult_total_witness:
  "''ECG'' \<in> set investigation_names
   \<and> parseComplexLabResult ''ECG'' ''CBC: 5'' = Inr (Simple ''Result not available in this case.'')"
proof -
  have mem: "''ECG'' \<in> set investigation_names"
    by (simp add: investigation_names_def ALL_INVESTIGATIONS_def)
  have absent: "\<nexists>pre mid ws rest. ''CBC: 5'' = pre @ mid @ ws @ CHR '':'' # rest
      \<and> map canonicalize mid = map canonicalize ''ECG'' \<and> (\<forall>c \<in> set ws. is_js_space c)"
  proof
    assume "\<exists>pre mid ws rest. ''CBC: 5'' = pre @ mid @ ws @ CHR '':'' # rest
      \<and> map canonicalize mid = map canonicalize ''ECG'' \<and> (\<forall>c \<in> set ws. is_js_space c)"
    then obtain pre mid ws rest where d: "''CBC: 5'' = pre @ mid @ ws @ CHR '':'' # rest"
      "map canonicalize mid = map canonicalize ''ECG''" "\<forall>c \<in> set ws. is_js_space c"
      by blast
    from lab_regex_exec_complete [OF d(2,3), of pre rest] d(1)
    have "lab_regex_exec ''ECG'' ''CBC: 5'' \<noteq> None" by simp
    then show False by (simp add: lab_regex_at_def canonicalize_def is_js_space_def)
  qed
  from parseComplexLabResult_total [OF mem, of "''CBC: 5''"] absent mem
  show ?thesis by auto
qed

lemma indexOf_None: "indexOf s ch = None \<longleftrightarrow> ch \<notin> set s"
  by (induction s) auto

lemma split_char_first: "(case split_char sep s of [] \<Rightarrow> [] | l # _ \<Rightarrow> l) = takeWhile (\<lambda>c. c \<noteq> sep) s"
  by (induction s) (auto split: list.splits)

lemma exam_step_colonless:
  assumes "CHR '':'' \<notin> set (takeWhile (\<lambda>c. c \<noteq> CHR 0x0A) (trim part))"
  shows "exam_step secs part =
           (if secs = [] then [\<lparr>s_title = ''Examination Findings'', s_content = [trim part]\<rparr>]
            else butlast secs @ [(last secs)\<lparr>s_content := s_content (last secs) @ [trim part]\<rparr>])"
proof -
  from assms have "indexOf (takeWhile (\<lambda>c. c \<noteq> CHR 0x0A) (trim part)) CHR '':'' = None"
    by (simp add: indexOf_None)
  then show ?thesis
    by (simp add: exam_step_def Let_def split_char_first)
qed

lemma exam_step_cases:
  "exam_step secs part = secs
   \<or> (\<exists>x. exam_step secs part = secs @ [x])
   \<or> (secs \<noteq> [] \<and> (\<exists>y. exam_step secs part =
          butlast secs @ [(last secs)\<lparr>s_content := s_content (last secs) @ [y]\<rparr>]))"
  by (auto simp: exam_step_def Let_def split: option.splits)

lemma exam_step_mono:
  "\<Union> (set ` s_content ` set secs) \<subseteq> \<Union> (set ` s_content ` set (exam_step secs part))"
proof -
  consider (same) "exam_step secs part = secs"
    | (push) x where "exam_step secs part = secs @ [x]"
    | (extend) y where "secs \<noteq> []"
        "exam_step secs part = butlast secs @ [(last secs)\<lparr>s_content := s_content (last secs) @ [y]\<rparr>]"
    using exam_step_cases [of secs part] by blast
  then show ?thesis
  proof cases
    case same
    then show ?thesis by simp
  next
    case push
    then show ?thesis by auto
  next
    case extend
    from extend(1) have "set (butlast secs @ [last secs]) = set secs"
      by simp
    then have "set secs = set (butlast secs) \<union> {last secs}"
      by (simp only: set_append list.set)
    then have "\<Union> (set ` s_content ` set secs)
        = \<Union> (set ` s_content ` set (butlast secs)) \<union> set (s_content (last secs))"
      by auto
    with extend(2) show ?thesis by auto
  qed
qed

lemma exam_step_keeps:
  assumes "CHR '':'' \<notin> set (takeWhile (\<lambda>c. c \<noteq> CHR 0x0A) (trim part))"
  shows "trim part \<in> \<Union> (set ` s_content ` set (exam_step secs part))"
  by (simp add: exam_step_colonless [OF assms])

lemma foldl_exam_step_mono:
  "\<Union> (set ` s_content ` set secs) \<subseteq> \<Union> (set ` s_content ` set (foldl exam_step secs parts))"
proof (induction parts arbitrary: secs)
  case Nil
  then show ?case by simp
next
  case (Cons p parts)
  from exam_step_mono [of secs p] Cons.IH [of "exam_step secs p"] show ?case
    by auto
qed

lemma foldl_exam_step_keeps:
  assumes "part \<in> set parts" "CHR '':'' \<notin> set (takeWhile (\<lambda>c. c \<noteq> CHR 0x0A) (trim part))"
  shows "trim part \<in> \<Union> (set ` s_content ` set (foldl exam_step secs parts))"
  using assms(1)
proof (induction parts arbitrary: secs)
  case Nil
  then show ?case by simp
next
  case (Cons p parts)
  show ?case
  proof (cases "part = p")
    case True
    from exam_step_keeps [OF assms(2), of secs] foldl_exam_step_mono [of "exam_step secs part" parts]
    show ?thesis unfolding True [symmetric] by auto
  next
    case False
    with Cons.prems have "part \<in> set parts" by simp
    from Cons.IH [OF this] show ?thesis by simp
  qed
qed

lemma dropWhile_all_iff: "(\<forall>x \<in> set (dropWhile P s). P x) \<longleftrightarrow> (\<forall>x \<in> set s. P x)"
proof
  assume a: "\<forall>x \<in> set (dropWhile P s). P x"
  have "dropWhile P s = []"
  proof (rule ccontr)
    assume ne: "dropWhile P s \<noteq> []"
    then have "\<not> P (hd (dropWhile P s))" by (rule hd_dropWhile)
    moreover from ne have "hd (dropWhile P s) \<in> set (dropWhile P s)" by (rule hd_in_set)
    ultimately show False using a by blast
  qed
  then show "\<forall>x \<in> set s. P x" by simp
next
  assume "\<forall>x \<in> set s. P x"
  then show "\<forall>x \<in> set (dropWhile P s). P x" by (auto dest: set_dropWhileD)
qed

lemma trim_Nil_iff: "trim s = [] \<longleftrightarrow> (\<forall>c \<in> set s. is_js_space c)"
  by (simp add: trim_def dropWhile_eq_Nil_conv dropWhile_all_iff)

lemma split_sections_chars:
  "p \<in> set (split_sections acc s) \<Longrightarrow> set p \<subseteq> set acc \<union> set s"
  by (induction acc s rule: split_sections.induct) (auto split: if_splits)

lemma exam_parts_nonblank:
  assumes "part \<in> set (exam_parts s)"
  shows "s \<noteq> [] \<and> trim s \<noteq> []"
proof -
  from assms have p: "part \<in> set (split_sections [] s)" and t: "trim part \<noteq> []"
    by (auto simp: exam_parts_def)
  from split_sections_chars [OF p] have "set part \<subseteq> set s" by simp
  with t have "trim s \<noteq> []" unfolding trim_Nil_iff by blast
  then show ?thesis by (auto simp: trim_def)
qed


text \<open>
  C9.  A part whose first line (after trimming) has no colon neither fails nor
  is dropped.  The step of the loop appends its trimmed text to the content of
  the last section parsed so far, or, when there is none, starts a section
  titled "Examination Findings" with it; and for every such part of an exam
  string, the sections computed for that string hold its trimmed text.
\<close>

theorem ParsedExamDisplay_colonless:
  assumes "CHR '':'' \<notin> set (takeWhile (\<lambda>c. c \<noteq> CHR 0x0A) (trim part))"
  shows "exam_step secs part =
           (if secs = [] then [\<lparr>s_title = ''Examination Findings'', s_content = [trim part]\<rparr>]
            else butlast secs @ [(last secs)\<lparr>s_content := s_content (last secs) @ [trim part]\<rparr>])
      \<and> (part \<in> set (exam_parts examString) \<longrightarrow>
           (\<exists>sec \<in> set (ParsedExamDisplay_sections examString). trim part \<in> set (s_content sec)))"
proof -
  have "\<exists>sec \<in> set (ParsedExamDisplay_sections examString). trim part \<in> set (s_content sec)"
    if mem: "part \<in> set (exam_parts examString)"
  proof -
    from exam_parts_nonblank [OF mem] have nb: "examString \<noteq> []" "trim examString \<noteq> []" by auto
    from foldl_exam_step_keeps [OF mem assms, of "[]"]
    have k: "trim part \<in> \<Union> (set ` s_content ` set (foldl exam_step [] (exam_parts examString)))" .
    then have "foldl exam_step [] (exam_parts examString) \<noteq> []" by auto
    with nb have "ParsedExamDisplay_sections examString = foldl exam_step [] (exam_parts examString)"
      by (simp add: ParsedExamDisplay_sections_def Let_def)
    with k show ?thesis by auto
  qed
  with exam_step_colonless [OF assms] show ?thesis by blast
qed

theorem ParsedExamDisplay_colonless_witness:
  "exam_step [\<lparr>s_title = ''A'', s_content = [''x'']\<rparr>] ''foo''
      = [\<lparr>s_title = ''A'', s_content = [''x'', ''foo'']\<rparr>]
   \<and> (\<exists>sec \<in> set (ParsedExamDisplay_sections ''A: x\<newline>foo\<newline>bar: y'').
         ''foo'' \<in> set (s_content sec))"
proof -
  have colonless: "CHR '':'' \<notin> set (takeWhile (\<lambda>c. c \<noteq> CHR 0x0A) (trim ''foo''))"
    by (simp add: trim_def is_js_space_def)
  have t: "trim ''foo'' = ''foo''"
    by (simp add: trim_def is_js_space_def)
  have mem: "''foo'' \<in> set (exam_parts ''A: x\<newline>foo\<newline>bar: y'')"
    by (simp add: exam_parts_def header_ahead_def is_word_char_def is_js_space_def trim_def)
  from ParsedExamDisplay_colonless [OF colonless,
      of "[\<lparr>s_title = ''A'', s_content = [''x'']\<rparr>]" "''A: x\<newline>foo\<newline>bar: y''"] mem t
  show ?thesis by simp
qed

lemma generateCase_one_problem_doc:
  "generateCase JSON_parse (Some ''key'') (Inr (JSON_stringify one_problem_doc)) = Inr one_problem_doc"
  by code_simp

lemma generateCase_not_json:
  "generateCase JSON_parse (Some ''key'') (Inr ''Sorry, no case today.'') = Inl InvalidCaseFormat"
  by code_simp


text \<open>
  C1, as the specification states it, fails: \<^verbatim>\<open>generateCase\<close> returns a document
  with a single candidate problem, none flagged correct.  The variant of the
  unnamed file returns the empty object for a text that does not parse.
\<close>

theorem generateCase_cardinality_counterexample:
  "generateCase JSON_parse (Some ''key'') (Inr (JSON_stringify one_problem_doc)) = Inr one_problem_doc
   \<and> \<not> four_problems_one_correct one_problem_doc
   \<and> generateCase_unnamed JSON_parse (Inr ''Sorry, no case today.'') = Inr (JObj [])
   \<and> \<not> four_problems_one_correct (JObj [])"
  by code_simp


text \<open>
  C1, amended.  Every case returned by \<^verbatim>\<open>generateCase\<close> has a truthy title and a
  truthy \<^verbatim>\<open>drugRelatedProblems\<close> whose length is not 0, hence at least one element
  when it is an array.  Neither the number of candidates nor the number of
  entries flagged correct is checked.
\<close>

theorem generateCase_returned_problems:
  assumes "generateCase parse apiKey response = Inr c"
  shows "truthy (get_member c ''title'')
     \<and> (\<exists>d. get_member c ''drugRelatedProblems'' = Some d \<and> truthy (Some d)
            \<and> js_length d \<noteq> Some (JNum 0))
     \<and> (\<forall>ds. get_member c ''drugRelatedProblems'' = Some (JArr ds) \<longrightarrow> ds \<noteq> [])"
proof -
  from assms obtain body where t: "generateCase_try parse body = Inr c"
    by (auto simp: generateCase_def split: sum.splits)
  then have h1: "truthy (get_member c ''title'')"
    and h2: "truthy (get_member c ''drugRelatedProblems'')"
    and h3: "(case get_member c ''drugRelatedProblems'' of None \<Rightarrow> False
             | Some d \<Rightarrow> js_length d = Some (JNum 0)) = False"
    by (auto simp: generateCase_try_def Let_def split: option.splits if_splits)
  from h2 obtain d where d: "get_member c ''drugRelatedProblems'' = Some d"
    by (cases "get_member c ''drugRelatedProblems''") auto
  with h2 h3 have "truthy (Some d)" "js_length d \<noteq> Some (JNum 0)" by auto
  moreover from this d have "\<forall>ds. get_member c ''drugRelatedProblems'' = Some (JArr ds) \<longrightarrow> ds \<noteq> []"
    by auto
  ultimately show ?thesis using h1 d by blast
qed

theorem generateCase_returned_problems_witness:
  "generateCase JSON_parse (Some ''key'') (Inr (JSON_stringify one_problem_doc)) = Inr one_problem_doc
   \<and> truthy (get_member one_problem_doc ''title'')
   \<and> (\<exists>d. get_member one_problem_doc ''drugRelatedProblems'' = Some d
          \<and> js_length d \<noteq> Some (JNum 0))"
  using generateCase_returned_problems [OF generateCase_one_problem_doc] generateCase_one_problem_doc
  by blast

text \<open>
  C2, as the specification states it, fails: the document returned for the text
  of \<open>one_problem_doc\<close> lacks nine of the eleven required properties.
\<close>

theorem generateCase_partial_counterexample:
  "generateCase JSON_parse (Some ''key'') (Inr (JSON_stringify one_problem_doc)) = Inr one_problem_doc
   \<and> \<not> fully_populated one_problem_doc"
  by code_simp


lemma getAi_Inl: "(\<exists>e. getAi apiKey = Inl e) \<longleftrightarrow> (apiKey = None \<or> apiKey = Some [])"
  by (auto simp: getAi_def split: option.splits)

lemma generateCase_try_Inl:
  "(\<exists>e. generateCase_try parse body = Inl e) \<longleftrightarrow>
     (case parse (trim body) of
        None \<Rightarrow> True
      | Some d \<Rightarrow> d = JNull \<or> \<not> truthy (get_member d ''title'')
          \<or> \<not> truthy (get_member d ''drugRelatedProblems'')
          \<or> (\<exists>x. get_member d ''drugRelatedProblems'' = Some x \<and> js_length x = Some (JNum 0)))"
  by (auto simp: generateCase_try_def Let_def split: option.splits)

lemma generateCase_try_Inr: "generateCase_try parse body = Inr c \<Longrightarrow> parse (trim body) = Some c"
  by (auto simp: generateCase_try_def Let_def split: option.splits if_splits)


text \<open>
  C2, amended.  \<^verbatim>\<open>generateCase\<close> fails exactly when the API key is not configured,
  the request is rejected, the text is not JSON, or the parsed document is
  \<^verbatim>\<open>null\<close>, has a falsy title, has a falsy \<^verbatim>\<open>drugRelatedProblems\<close>, or has one of
  length 0.  In every other case it returns the parsed document as it is,
  whatever other properties it has or lacks.  The variant of the unnamed file
  never fails on a response: it returns the parsed document, or the empty
  object when the text does not parse.
\<close>

theorem generateCase_failure_conditions:
  "((\<exists>e. generateCase parse apiKey response = Inl e) \<longleftrightarrow>
      (apiKey = None \<or> apiKey = Some [] \<or> (\<exists>m. response = Inl m)
       \<or> (\<exists>body. response = Inr body \<and>
            (case parse (trim body) of
               None \<Rightarrow> True
             | Some d \<Rightarrow> d = JNull \<or> \<not> truthy (get_member d ''title'')
                 \<or> \<not> truthy (get_member d ''drugRelatedProblems'')
                 \<or> (\<exists>x. get_member d ''drugRelatedProblems'' = Some x
                        \<and> js_length x = Some (JNum 0))))))
   \<and> (\<forall>c. generateCase parse apiKey response = Inr c \<longrightarrow>
         (\<exists>body. response = Inr body \<and> parse (trim body) = Some c))
   \<and> generateCase_unnamed parse (Inr body') =
         Inr (case parse (trim (strip_fences body')) of None \<Rightarrow> JObj [] | Some v \<Rightarrow> v)"
proof -
  have fail: "(\<exists>e. generateCase parse apiKey response = Inl e) \<longleftrightarrow>
      ((\<exists>e. getAi apiKey = Inl e) \<or> (\<exists>m. response = Inl m)
       \<or> (\<exists>body. response = Inr body \<and> (\<exists>e. generateCase_try parse body = Inl e)))"
    by (cases "getAi apiKey"; cases response; cases "generateCase_try parse (projr response)")
       (auto simp: generateCase_def)
  have ok: "\<forall>c. generateCase parse apiKey response = Inr c \<longrightarrow>
         (\<exists>body. response = Inr body \<and> parse (trim body) = Some c)"
    by (auto simp: generateCase_def split: sum.splits dest: generateCase_try_Inr)
  have un: "generateCase_unnamed parse (Inr body') =
         Inr (case parse (trim (strip_fences body')) of None \<Rightarrow> JObj [] | Some v \<Rightarrow> v)"
    by (simp add: generateCase_unnamed_def safeJSONParse_def)
  from fail ok un show ?thesis
    unfolding getAi_Inl generateCase_try_Inl by blast
qed


theorem generateCase_failure_conditions_witness:
  "JSON_parse (trim (JSON_stringify one_problem_doc)) = Some one_problem_doc
   \<and> (\<exists>e. generateCase JSON_parse (Some ''key'') (Inr ''Sorry, no case today.'') = Inl e)"
  using generateCase_failure_conditions [of JSON_parse "Some ''key''" "Inr (JSON_stringify one_problem_doc)" "[]"]
    generateCase_failure_conditions [of JSON_parse "Some ''key''" "Inr ''Sorry, no case today.''" "[]"]
    generateCase_one_problem_doc generateCase_not_json
  by simp


text \<open>
  C3, as the specification states it, fails: on a text that does not parse,
  \<^verbatim>\<open>generateDebrief\<close> throws instead of returning a fallback and no debrief data is
  stored; the variant of the unnamed file returns the fallback, and then no
  notice is set.
\<close>

theorem generateDebrief_fallback_counterexample:
  "generateDebrief JSON_parse (Some ''key'') (Inr ''Sorry, no debrief.'') = Inl InvalidDebriefFormat
   \<and> debriefData (handleGenerateDebrief example_finished
        (generateDebrief JSON_parse (Some ''key'') (Inr ''Sorry, no debrief.''))) = None
   \<and> debriefError (handleGenerateDebrief example_finished
        (generateDebrief_unnamed JSON_parse (Inr ''Sorry, no debrief.''))) = None"
  by code_simp


text \<open>
  C3, amended.  When the text of the response does not parse, \<^verbatim>\<open>generateDebrief\<close>
  replaces the parse exception by the Error "The AI model returned an invalid
  debrief format." and returns nothing; \<^verbatim>\<open>handleGenerateDebrief\<close> catches it,
  leaves the debrief data as it was and sets the notice "Failed to generate
  debrief. The AI model returned an invalid debrief format.".  The variant of
  the unnamed file returns the fallback with the reasoning "Could not generate
  debrief." and empty pearls and citations instead.
\<close>

theorem generateDebrief_parse_failure:
  "(parse (trim body) = None \<longrightarrow>
      generateDebrief parse (Some (k # ks)) (Inr body) = Inl InvalidDebriefFormat
      \<and> (currentCase st \<noteq> None \<and> simulationResult st \<noteq> None \<longrightarrow>
           debriefData (handleGenerateDebrief st (generateDebrief parse (Some (k # ks)) (Inr body)))
             = debriefData st
           \<and> debriefError (handleGenerateDebrief st (generateDebrief parse (Some (k # ks)) (Inr body)))
             = Some ''Failed to generate debrief. The AI model returned an invalid debrief format.''))
   \<and> (parse (trim (strip_fences body)) = None \<longrightarrow>
        generateDebrief_unnamed parse (Inr body) = Inr debrief_fallback)"
  by (simp add: generateDebrief_def generateDebrief_try_def getAi_def Let_def
      handleGenerateDebrief_def generateDebrief_unnamed_def safeJSONParse_def)


lemma parse_no_debrief:
  "JSON_parse (trim ''Sorry, no debrief.'') = None"
  "JSON_parse (trim (strip_fences ''Sorry, no debrief.'')) = None"
  "currentCase example_finished \<noteq> None" "simulationResult example_finished \<noteq> None"
  by code_simp+


theorem generateDebrief_parse_failure_witness:
  "debriefError (handleGenerateDebrief example_finished
       (generateDebrief JSON_parse (Some ''key'') (Inr ''Sorry, no debrief.'')))
     = Some ''Failed to generate debrief. The AI model returned an invalid debrief format.''
   \<and> generateDebrief_unnamed JSON_parse (Inr ''Sorry, no debrief.'') = Inr debrief_fallback"
proof -
  note inst = generateDebrief_parse_failure [of JSON_parse "''Sorry, no debrief.''" "CHR ''k''" "''ey''"
      example_finished]
  from inst parse_no_debrief(1,3,4)
  have a: "debriefError (handleGenerateDebrief example_finished
       (generateDebrief JSON_parse (Some ''key'') (Inr ''Sorry, no debrief.'')))
     = Some ''Failed to generate debrief. The AI model returned an invalid debrief format.''"
    by blast
  from inst parse_no_debrief(2)
  have b: "generateDebrief_unnamed JSON_parse (Inr ''Sorry, no debrief.'') = Inr debrief_fallback"
    by blast
  from a b show ?thesis by (rule conjI)
qed


text \<open>
  C4.  The round trip fails where the value holds three backticks in a row:
  the global replace removes them together with the fences.  The string of
  three backticks comes back as the empty string, and a title with three
  backticks inside comes back without them.
\<close>

theorem safeJSONParse_strips_inner_backticks:
  "safeJSONParse JSON_parse (fence (JSON_stringify (JStr ''```''))) JNull = JStr []
   \<and> safeJSONParse JSON_parse (fence (JSON_stringify (JObj [(''title'', JStr ''a```b'')]))) JNull
       = JObj [(''title'', JStr ''ab'')]"
  by code_simp

lemma strip_fences_fence: "strip_fences (fence s) = strip_fences (s @ CHR 0x0A # ''```'')"
  by (simp add: fence_def)

lemma take3_append:
  assumes "take 3 (c # cs) \<noteq> ''```''"
  shows "take 3 ((c # cs) @ CHR 0x0A # t) \<noteq> ''```''"
proof (cases cs)
  case Nil
  then show ?thesis by simp
next
  case (Cons d ds)
  then show ?thesis using assms by (cases ds) auto
qed

lemma take7_take3: "take 3 x \<noteq> ''```'' \<Longrightarrow> take 7 x \<noteq> ''```json''"
proof
  assume a: "take 3 x \<noteq> ''```''" and b: "take 7 x = ''```json''"
  have "take 3 (take 7 x) = take 3 x" by simp
  with b have "take 3 x = take 3 ''```json''" by simp
  with a show False by simp
qed

lemma strip_fences_closing:
  "\<not> has_fence s \<Longrightarrow> strip_fences (s @ CHR 0x0A # ''```'') = s @ [CHR 0x0A]"
proof (induction s)
  case Nil
  then show ?case by simp
next
  case (Cons c cs)
  from Cons.prems have t: "take 3 (c # cs) \<noteq> ''```''" and h: "\<not> has_fence cs" by auto
  from take3_append [OF t] have t3: "take 3 ((c # cs) @ CHR 0x0A # ''```'') \<noteq> ''```''" .
  from take7_take3 [OF t3] have t7: "take 7 ((c # cs) @ CHR 0x0A # ''```'') \<noteq> ''```json''" .
  have "strip_fences ((c # cs) @ CHR 0x0A # ''```'') = c # strip_fences (cs @ CHR 0x0A # ''```'')"
    using t3 t7 by (simp del: take_Cons_numeral add: strip_fences.simps(2) [of c "cs @ CHR 0x0A # ''```''"])
  with Cons.IH [OF h] show ?case by simp
qed

lemma trim_line_feed:
  assumes "s \<noteq> []" "\<not> is_js_space (hd s)" "\<not> is_js_space (last s)"
  shows "trim (s @ [CHR 0x0A]) = s"
proof -
  from assms(1,2) have d: "dropWhile is_js_space (s @ [CHR 0x0A]) = s @ [CHR 0x0A]"
    by (cases s) auto
  from assms(1,3) have "dropWhile is_js_space (rev s) = rev s"
    by (cases "rev s") (auto simp: last_rev [symmetric] hd_rev)
  then have "dropWhile is_js_space (rev (s @ [CHR 0x0A])) = rev s"
    by (simp add: is_js_space_def)
  with d show ?thesis by (simp add: trim_def)
qed

lemma digit_char_not_space: "d < 10 \<Longrightarrow> \<not> is_js_space (digit_char d)"
  by (simp add: is_js_space_def digit_char_def char_of_eq_iff take_bit_eq_mod)

lemma show_nat_chars: "show_nat n \<noteq> [] \<and> (\<forall>c \<in> set (show_nat n). \<not> is_js_space c)"
proof (induction n rule: show_nat.induct)
  case (1 n)
  show ?case
  proof (cases "n < 10")
    case True
    then show ?thesis by (simp add: show_nat.simps [of n] digit_char_not_space)
  next
    case False
    with "1.IH" show ?thesis
      by (simp add: show_nat.simps [of n] digit_char_not_space)
  qed
qed

lemma show_int_ends:
  "show_int i \<noteq> [] \<and> \<not> is_js_space (hd (show_int i)) \<and> \<not> is_js_space (last (show_int i))"
proof -
  let ?s = "show_nat (nat \<bar>i\<bar>)"
  from show_nat_chars [of "nat \<bar>i\<bar>"] have ne: "?s \<noteq> []"
    and ns: "\<forall>c \<in> set ?s. \<not> is_js_space c" by auto
  from ne have "hd ?s \<in> set ?s" "last ?s \<in> set ?s" by auto
  with ns have "\<not> is_js_space (hd ?s)" "\<not> is_js_space (last ?s)" by auto
  with ne show ?thesis
    by (auto simp: show_int_def is_js_space_def)
qed

lemma JSON_stringify_ends:
  "JSON_stringify x \<noteq> [] \<and> \<not> is_js_space (hd (JSON_stringify x))
     \<and> \<not> is_js_space (last (JSON_stringify x))"
proof (cases x)
  case (JNum n)
  then show ?thesis using show_int_ends [of n] by simp
qed (simp_all add: quote_def is_js_space_def)


text \<open>
  Where the round trip does hold: for every value whose \<^verbatim>\<open>JSON.stringify\<close> text
  holds no three backticks in a row and is parsed back to the value by
  \<^verbatim>\<open>JSON.parse\<close>, \<^verbatim>\<open>safeJSONParse\<close> of the fenced text is the value: stripping the
  fences and trimming give the text back.
\<close>

theorem safeJSONParse_roundtrip:
  assumes "parse (JSON_stringify x) = Some x"
      and "\<not> has_fence (JSON_stringify x)"
  shows "safeJSONParse parse (fence (JSON_stringify x)) fallback = x"
proof -
  have "strip_fences (fence (JSON_stringify x)) = JSON_stringify x @ [CHR 0x0A]"
    using strip_fences_closing [OF assms(2)] by (simp add: strip_fences_fence)
  moreover have "trim (JSON_stringify x @ [CHR 0x0A]) = JSON_stringify x"
    using JSON_stringify_ends [of x] by (simp add: trim_line_feed)
  ultimately show ?thesis using assms(1) by (simp add: safeJSONParse_def)
qed


theorem safeJSONParse_roundtrip_witness:
  "JSON_parse (JSON_stringify one_problem_doc) = Some one_problem_doc
   \<and> \<not> has_fence (JSON_stringify one_problem_doc)
   \<and> safeJSONParse JSON_parse (fence (JSON_stringify one_problem_doc)) JNull = one_problem_doc"
proof -
  have p: "JSON_parse (JSON_stringify one_problem_doc) = Some one_problem_doc"
    by code_simp
  have f: "\<not> has_fence (JSON_stringify one_problem_doc)"
    by code_simp
  from safeJSONParse_roundtrip [of JSON_parse one_problem_doc JNull] p f show ?thesis by simp
qed

text \<open>With the reference parser the only condition left is the one on backticks.\<close>

theorem safeJSONParse_roundtrip_reference:
  assumes "\<not> has_fence (JSON_stringify x)"
  shows "safeJSONParse JSON_parse (fence (JSON_stringify x)) fallback = x"
  using JSON_parse_stringify assms by (rule safeJSONParse_roundtrip)


lemma handleRequestHint_nonneg:
  "0 \<le> hintCount st \<Longrightarrow> 0 \<le> hintCount (handleRequestHint st outcome now today)"
  by (auto simp: handleRequestHint_def updateHintCount_def Let_def split: sum.splits)

lemma requestHints_nonneg: "0 \<le> hintCount st \<Longrightarrow> 0 \<le> hintCount (requestHints st calls)"
proof (induction calls arbitrary: st)
  case Nil
  then show ?case by simp
next
  case (Cons call calls)
  obtain outcome now today where call: "call = (outcome, now, today)" by (cases call)
  from Cons.prems have "0 \<le> hintCount (handleRequestHint st outcome now today)"
    by (rule handleRequestHint_nonneg)
  then show ?case unfolding call by (simp add: Cons.IH)
qed


text \<open>
  C6.  A hint request at a count of 0 or less changes nothing: no request is
  issued, nothing is decremented, nothing is stored.  A request that fails
  leaves the count and the store as they were.  Starting from a count that is
  not negative, no run of requests makes it negative.
\<close>

theorem handleRequestHint_budget:
  "(hintCount st \<le> 0 \<longrightarrow> handleRequestHint st outcome now today = st)
   \<and> hintCount (handleRequestHint st (Inl e) now today) = hintCount st
   \<and> localStorage (handleRequestHint st (Inl e) now today) = localStorage st
   \<and> (0 \<le> hintCount st \<longrightarrow> 0 \<le> hintCount (requestHints st calls))"
  using requestHints_nonneg [of st calls]
  by (simp add: handleRequestHint_def Let_def)

theorem handleRequestHint_budget_witness:
  "handleRequestHint (example_state\<lparr>hintCount := 0\<rparr>) (Inr ''Ask about adherence.'') ''t1'' ''2026-11-02''
     = example_state\<lparr>hintCount := 0\<rparr>
   \<and> hintCount (requestHints (example_state\<lparr>hintCount := 1\<rparr>)
        [(Inl (UpstreamError ''503''), ''t1'', ''2026-11-02''),
         (Inr ''Ask about adherence.'', ''t2'', ''2026-11-02''),
         (Inr ''Ask about diet.'', ''t3'', ''2026-11-02'')]) = 0"
  using handleRequestHint_budget [of "example_state\<lparr>hintCount := 0\<rparr>" "Inr ''Ask about adherence.''"
      "''t1''" "''2026-11-02''" ApiKeyMissing "[]"]
    handleRequestHint_budget [of "example_state\<lparr>hintCount := 1\<rparr>" "Inr ''Ask about adherence.''"
      "''t1''" "''2026-11-02''" ApiKeyMissing "[(Inl (UpstreamError ''503''), ''t1'', ''2026-11-02''),
         (Inr ''Ask about adherence.'', ''t2'', ''2026-11-02''),
         (Inr ''Ask about diet.'', ''t3'', ''2026-11-02'')]"]
  by (simp add: handleRequestHint_def updateHintCount_def Let_def example_state_def)


end
